theory Spec2Isabelle
  imports Main "HOL-Library.AList" "HOL-Library.Multiset" "HOL-Library.Char_ord" "HOL-Library.List_Lexorder"
begin

section \<open>Data model of the merge utility (merge\_loc\_histories.py)\<close>

text \<open>
  A Python dict is an association list in insertion order; \<open>AList.update\<close> is item
  assignment (an existing key keeps its place, a new key goes to the end) and \<open>map_of\<close> is
  lookup. A MetricSet is a dict from field names to Python integers; a history document is a
  dict of months, each a dict of extensions, each a MetricSet.
\<close>

type_synonym stats = "(string \<times> int) list"

type_synonym document = "(string \<times> (string \<times> stats) list) list"

text \<open>
  The MetricSet dicts are the only objects the merge shares between its inputs and its
  accumulator, so they live in a store: an address is an index into the list of allocated
  dicts. The month and extension dicts of the accumulator are built by the merge itself and
  are passed by value.
\<close>

type_synonym addr = nat

type_synonym heap = "stats list"

type_synonym ref_exts = "(string \<times> addr) list"

type_synonym ref_doc = "(string \<times> ref_exts) list"

datatype py_error = KeyError string | FileNotFoundError string | SystemExit | BaseException string

text \<open>The stored files: a path has a parsed JSON document or does not exist.\<close>

type_synonym files = "string \<Rightarrow> document option"

definition FIELDS :: "string list" where
  "FIELDS = [''lines'', ''files'', ''additions'', ''deletions'', ''modifications'', ''repos'']"

subsection \<open>json.load: every MetricSet of the document becomes a fresh object\<close>

fun load_exts :: "heap \<Rightarrow> (string \<times> stats) list \<Rightarrow> heap \<times> ref_exts" where
  "load_exts h [] = (h, [])"
| "load_exts h ((ext, st) # es) =
     (case load_exts (h @ [st]) es of (h', r) \<Rightarrow> (h', (ext, length h) # r))"

fun json_load :: "heap \<Rightarrow> document \<Rightarrow> heap \<times> ref_doc" where
  "json_load h [] = (h, [])"
| "json_load h ((month, es) # ms) =
     (case load_exts h es of (h1, res) \<Rightarrow>
        (case json_load h1 ms of (h2, r) \<Rightarrow> (h2, (month, res) # r)))"

text \<open>Reading an object graph back as a value.\<close>

definition deref_exts :: "heap \<Rightarrow> ref_exts \<Rightarrow> (string \<times> stats) list" where
  "deref_exts h es = map (\<lambda>(ext, a). (ext, h ! a)) es"

definition deref :: "heap \<Rightarrow> ref_doc \<Rightarrow> document" where
  "deref h d = map (\<lambda>(month, es). (month, deref_exts h es)) d"

subsection \<open>merge\_loc\_histories\<close>

text \<open>
  The innermost loop, \<^verbatim>\<open>for field in [...]: merged[month][ext][field] += stats[field]\<close>,
  on the objects at addresses \<open>a\<close> (the accumulator's entry) and \<open>b\<close> (the input's
  MetricSet). The left operand is read first, then the right one; a missing key raises
  KeyError; the fields already summed stay written in the store.
\<close>

fun add_fields :: "heap \<Rightarrow> addr \<Rightarrow> addr \<Rightarrow> string list \<Rightarrow> py_error + heap" where
  "add_fields h a b [] = Inr h"
| "add_fields h a b (f # fs) =
     (case map_of (h ! a) f of
        None \<Rightarrow> Inl (KeyError f)
      | Some x \<Rightarrow>
         (case map_of (h ! b) f of
            None \<Rightarrow> Inl (KeyError f)
          | Some y \<Rightarrow> add_fields (h[a := AList.update f (x + y) (h ! a)]) a b fs))"

text \<open>
  \<^verbatim>\<open>for ext, stats in extensions.items()\<close>: on first encounter the input's own object is
  stored (\<^verbatim>\<open>merged[month][ext] = stats\<close>), otherwise the fields are summed into the entry.
\<close>

fun merge_exts :: "heap \<Rightarrow> ref_exts \<Rightarrow> ref_exts \<Rightarrow> py_error + heap \<times> ref_exts" where
  "merge_exts h md [] = Inr (h, md)"
| "merge_exts h md ((ext, b) # es) =
     (case map_of md ext of
        None \<Rightarrow> merge_exts h (AList.update ext b md) es
      | Some a \<Rightarrow>
         (case add_fields h a b FIELDS of
            Inl e \<Rightarrow> Inl e
          | Inr h' \<Rightarrow> merge_exts h' md es))"

text \<open>
  \<^verbatim>\<open>for month, extensions in data.items()\<close>: a month not yet in \<open>merged\<close> gets an empty
  dict, then the month's extensions are merged into it.
\<close>

fun merge_months :: "heap \<Rightarrow> ref_doc \<Rightarrow> ref_doc \<Rightarrow> py_error + heap \<times> ref_doc" where
  "merge_months h merged [] = Inr (h, merged)"
| "merge_months h merged ((month, es) # ms) =
     (let md = (case map_of merged month of None \<Rightarrow> [] | Some d \<Rightarrow> d) in
      case merge_exts h md es of
        Inl e \<Rightarrow> Inl e
      | Inr (h', md') \<Rightarrow> merge_months h' (AList.update month md' merged) ms)"

text \<open>
  The state of the loop over the files: the store, the accumulator \<open>merged\<close>, and the objects
  that were bound to \<open>data\<close> so far (Python drops them; they are kept here so that claims
  about the loaded inputs after the call can be stated).
\<close>

record merge_state =
  heap :: heap
  merged :: ref_doc
  loaded :: "ref_doc list"

fun merge_files :: "files \<Rightarrow> merge_state \<Rightarrow> string list \<Rightarrow> py_error + merge_state" where
  "merge_files fs s [] = Inr s"
| "merge_files fs s (file # rest) =
     (case fs file of
        None \<Rightarrow> Inl (FileNotFoundError file)
      | Some doc \<Rightarrow>
         (case json_load (heap s) doc of (h1, data) \<Rightarrow>
            (case merge_months h1 (merged s) data of
               Inl e \<Rightarrow> Inl e
             | Inr (h2, m2) \<Rightarrow>
                 merge_files fs \<lparr>heap = h2, merged = m2, loaded = loaded s @ [data]\<rparr> rest)))"

definition init_state :: merge_state where
  "init_state = \<lparr>heap = [], merged = [], loaded = []\<rparr>"

definition merge_run :: "files \<Rightarrow> string list \<Rightarrow> py_error + merge_state" where
  "merge_run fs fl = merge_files fs init_state fl"

definition merge_loc_histories :: "files \<Rightarrow> string list \<Rightarrow> py_error + document" where
  "merge_loc_histories fs fl =
     (case merge_run fs fl of Inl e \<Rightarrow> Inl e | Inr s \<Rightarrow> Inr (deref (heap s) (merged s)))"

text \<open>
  \<^verbatim>\<open>main\<close>: argparse wants at least one input file; the output file is opened only after
  the merge has returned. The result is the stored files afterwards and the exception, if any.
\<close>

definition main :: "files \<Rightarrow> string list \<Rightarrow> string \<Rightarrow> files \<times> py_error option" where
  "main fs fl output =
     (if fl = [] then (fs, Some SystemExit)
      else case merge_loc_histories fs fl of
        Inl e \<Rightarrow> (fs, Some e)
      | Inr d \<Rightarrow> (fs(output \<mapsto> d), None))"

subsection \<open>The merge on values\<close>

text \<open>
  The same loops on the dicts themselves, without the store. The store model returns what
  these functions return (lemma \<open>merge_loc_histories_value\<close> below); the properties of the
  merged history are proved on them.
\<close>

fun value_add_fields :: "stats \<Rightarrow> stats \<Rightarrow> string list \<Rightarrow> py_error + stats" where
  "value_add_fields acc st [] = Inr acc"
| "value_add_fields acc st (f # fs) =
     (case map_of acc f of
        None \<Rightarrow> Inl (KeyError f)
      | Some x \<Rightarrow>
         (case map_of st f of
            None \<Rightarrow> Inl (KeyError f)
          | Some y \<Rightarrow> value_add_fields (AList.update f (x + y) acc) st fs))"

fun value_merge_exts ::
  "(string \<times> stats) list \<Rightarrow> (string \<times> stats) list \<Rightarrow> py_error + (string \<times> stats) list" where
  "value_merge_exts md [] = Inr md"
| "value_merge_exts md ((ext, st) # es) =
     (case map_of md ext of
        None \<Rightarrow> value_merge_exts (AList.update ext st md) es
      | Some acc \<Rightarrow>
         (case value_add_fields acc st FIELDS of
            Inl e \<Rightarrow> Inl e
          | Inr acc' \<Rightarrow> value_merge_exts (AList.update ext acc' md) es))"

fun value_merge_months :: "document \<Rightarrow> document \<Rightarrow> py_error + document" where
  "value_merge_months acc [] = Inr acc"
| "value_merge_months acc ((month, es) # ms) =
     (case value_merge_exts (case map_of acc month of None \<Rightarrow> [] | Some d \<Rightarrow> d) es of
        Inl e \<Rightarrow> Inl e
      | Inr md' \<Rightarrow> value_merge_months (AList.update month md' acc) ms)"

fun value_merge_docs :: "document \<Rightarrow> document list \<Rightarrow> py_error + document" where
  "value_merge_docs acc [] = Inr acc"
| "value_merge_docs acc (d # ds) =
     (case value_merge_months acc d of
        Inl e \<Rightarrow> Inl e
      | Inr m' \<Rightarrow> value_merge_docs m' ds)"

text \<open>The addresses of the MetricSet objects that an object graph refers to.\<close>

definition addrs_doc :: "ref_doc \<Rightarrow> addr list" where
  "addrs_doc d = concat (map (\<lambda>(month, es). map snd es) d)"

text \<open>The dict of a month in the accumulator, empty when the month is new.\<close>

definition month_dict :: "('k \<times> 'v list) list \<Rightarrow> 'k \<Rightarrow> 'v list" where
  "month_dict acc month = (case map_of acc month of None \<Rightarrow> [] | Some d \<Rightarrow> d)"

fun value_merge_files :: "files \<Rightarrow> document \<Rightarrow> string list \<Rightarrow> py_error + document" where
  "value_merge_files fs acc [] = Inr acc"
| "value_merge_files fs acc (file # rest) =
     (case fs file of
        None \<Rightarrow> Inl (FileNotFoundError file)
      | Some doc \<Rightarrow>
         (case value_merge_months acc doc of
            Inl e \<Rightarrow> Inl e
          | Inr acc' \<Rightarrow> value_merge_files fs acc' rest))"

text \<open>
  No two entries of the accumulator are the same object, and every entry is allocated.
\<close>

definition heap_inv :: "merge_state \<Rightarrow> bool" where
  "heap_inv s \<longleftrightarrow> distinct (addrs_doc (merged s)) \<and> (\<forall>x \<in> set (addrs_doc (merged s)). x < length (heap s))"

subsection \<open>Dicts, entries and the inputs of a merge\<close>

text \<open>A list stands for a Python dict when each key occurs once in it.\<close>

definition is_dict :: "('k \<times> 'v) list \<Rightarrow> bool" where
  "is_dict xs = distinct (map fst xs)"

definition dict_doc :: "document \<Rightarrow> bool" where
  "dict_doc d \<longleftrightarrow> is_dict d \<and> (\<forall>(month, es) \<in> set d. is_dict es)"

text \<open>The MetricSet of a (month, extension) pair.\<close>

definition lookup2 :: "('a \<times> ('b \<times> 'c) list) list \<Rightarrow> 'a \<Rightarrow> 'b \<Rightarrow> 'c option" where
  "lookup2 d month ext = (case map_of d month of None \<Rightarrow> None | Some es \<Rightarrow> map_of es ext)"

text \<open>
  One loop over the items of a dict, with the operation on an entry as a parameter; the loop
  over the extensions and the loop over the months are both of this form.
\<close>

fun dict_merge ::
  "('v option \<Rightarrow> 'w \<Rightarrow> py_error + 'v) \<Rightarrow> ('k \<times> 'v) list \<Rightarrow> ('k \<times> 'w) list \<Rightarrow> py_error + ('k \<times> 'v) list" where
  "dict_merge c acc [] = Inr acc"
| "dict_merge c acc ((k, w) # xs) =
     (case c (map_of acc k) w of
        Inl e \<Rightarrow> Inl e
      | Inr v \<Rightarrow> dict_merge c (AList.update k v acc) xs)"

definition combine :: "stats option \<Rightarrow> stats \<Rightarrow> py_error + stats" where
  "combine acc st = (case acc of None \<Rightarrow> Inr st | Some a \<Rightarrow> value_add_fields a st FIELDS)"

definition combine_exts ::
  "(string \<times> stats) list option \<Rightarrow> (string \<times> stats) list \<Rightarrow> py_error + (string \<times> stats) list" where
  "combine_exts acc es = value_merge_exts (case acc of None \<Rightarrow> [] | Some d \<Rightarrow> d) es"

text \<open>
  What the merge does to one (month, extension) pair along the inputs: an input without the
  pair leaves the entry alone, the first input with it provides the entry, later ones are
  summed into it.
\<close>

fun fold_entry :: "stats option \<Rightarrow> stats option list \<Rightarrow> py_error + stats option" where
  "fold_entry acc [] = Inr acc"
| "fold_entry acc (None # xs) = fold_entry acc xs"
| "fold_entry acc (Some st # xs) =
     (case combine acc st of Inl e \<Rightarrow> Inl e | Inr r \<Rightarrow> fold_entry (Some r) xs)"

text \<open>
  A MetricSet that contains all six fields; the MetricSets of a pair in the inputs, in input
  order; the sum of one field over MetricSets.
\<close>

definition complete :: "stats \<Rightarrow> bool" where
  "complete st \<longleftrightarrow> (\<forall>f \<in> set FIELDS. map_of st f \<noteq> None)"

definition occurrences :: "document list \<Rightarrow> string \<Rightarrow> string \<Rightarrow> stats list" where
  "occurrences ds month ext = List.map_filter (\<lambda>d. lookup2 d month ext) ds"

definition field_total :: "stats list \<Rightarrow> string \<Rightarrow> int" where
  "field_total sts f = sum_list (map (\<lambda>st. the (map_of st f)) sts)"

text \<open>The documents of the input files that exist, in input order.\<close>

definition inputs :: "files \<Rightarrow> string list \<Rightarrow> document list" where
  "inputs fs fl = List.map_filter fs fl"

text \<open>Every MetricSet of a document satisfies \<open>P\<close>.\<close>

definition every_stats :: "(stats \<Rightarrow> bool) \<Rightarrow> document \<Rightarrow> bool" where
  "every_stats P d \<longleftrightarrow> (\<forall>(month, es) \<in> set d. \<forall>(ext, st) \<in> set es. P st)"

text \<open>Every input file exists and holds a dict of dicts (each key once).\<close>

definition readable :: "files \<Rightarrow> string list \<Rightarrow> bool" where
  "readable fs fl \<longleftrightarrow> (\<forall>f \<in> set fl. \<exists>d. fs f = Some d \<and> dict_doc d)"

subsection \<open>Example files\<close>

definition metrics :: "int \<Rightarrow> int \<Rightarrow> int \<Rightarrow> int \<Rightarrow> int \<Rightarrow> int \<Rightarrow> stats" where
  "metrics l f a d m r = [(''lines'', l), (''files'', f), (''additions'', a), (''deletions'', d),
     (''modifications'', m), (''repos'', r)]"

definition january_a :: document where
  "january_a = [(''2024-01'', [(''py'', metrics 10 1 10 0 1 1)])]"

definition january_b :: document where
  "january_b = [(''2024-01'', [(''py'', metrics 5 1 5 0 1 1)])]"

definition five_fields :: stats where
  "five_fields = [(''lines'', 10), (''files'', 1), (''additions'', 10), (''deletions'', 0),
     (''modifications'', 1)]"

definition no_repos :: document where
  "no_repos = [(''2024-01'', [(''py'', five_fields)])]"

definition january_note :: document where
  "january_note = [(''2024-01'', [(''py'', metrics 1 1 1 0 1 1 @ [(''note'', 7)])])]"

definition disk :: files where
  "disk = [''a.json'' \<mapsto> january_a, ''b.json'' \<mapsto> january_b, ''c.json'' \<mapsto> no_repos,
     ''d.json'' \<mapsto> january_note]"

text \<open>A MetricSet with exactly the six fields.\<close>

definition metric_set :: "stats \<Rightarrow> bool" where
  "metric_set st \<longleftrightarrow> is_dict st \<and> set (map fst st) = set FIELDS"

definition six_fields :: "files \<Rightarrow> string list \<Rightarrow> bool" where
  "six_fields fs fl \<longleftrightarrow> (\<forall>d \<in> set (inputs fs fl). every_stats metric_set d)"

text \<open>
  What Python's \<^verbatim>\<open>==\<close> compares on two histories: the nested mappings, whatever the
  insertion order of the keys.
\<close>

definition dict_value :: "document \<Rightarrow> string \<Rightarrow> (string \<Rightarrow> (string \<Rightarrow> int option) option) option" where
  "dict_value d = (\<lambda>month. map_option (\<lambda>es ext. map_option map_of (map_of es ext)) (map_of d month))"

text \<open>The sum of MetricSets that have exactly the six fields, as a mapping.\<close>

definition stats_total :: "stats list \<Rightarrow> string \<Rightarrow> int option" where
  "stats_total sts = (\<lambda>k. if k \<in> set FIELDS then Some (field_total sts k) else None)"




section \<open>Identity matcher (CommitIdentityMatcher in repo\_scan.py)\<close>

subsection \<open>The part of Python's \<open>re\<close> module that the patterns use\<close>

text \<open>
  Text is ASCII, one \<open>char\<close> per code point. A pattern of the modelled fragment is a
  sequence of items: a character (a literal, compared without regard to case since every
  pattern is compiled with \<^verbatim>\<open>re.IGNORECASE\<close>, or \<^verbatim>\<open>.\<close>), a character under
  \<^verbatim>\<open>*\<close>, or the word boundary \<^verbatim>\<open>\b\<close>.
\<close>

datatype atom = Lit char | Dot

datatype item = One atom | Star atom | WordBoundary

type_synonym regex = "item list"

datatype token = TAtom atom | TStar | TBoundary

definition is_digit :: "char \<Rightarrow> bool" where
  "is_digit c \<longleftrightarrow> CHR ''0'' \<le> c \<and> c \<le> CHR ''9''"

definition is_upper :: "char \<Rightarrow> bool" where
  "is_upper c \<longleftrightarrow> CHR ''A'' \<le> c \<and> c \<le> CHR ''Z''"

definition is_lower :: "char \<Rightarrow> bool" where
  "is_lower c \<longleftrightarrow> CHR ''a'' \<le> c \<and> c \<le> CHR ''z''"

definition is_alnum :: "char \<Rightarrow> bool" where
  "is_alnum c \<longleftrightarrow> is_digit c \<or> is_upper c \<or> is_lower c"

text \<open>\<^verbatim>\<open>\w\<close>: letters, digits and the underscore.\<close>

definition is_word_char :: "char \<Rightarrow> bool" where
  "is_word_char c \<longleftrightarrow> is_alnum c \<or> c = CHR ''_''"

text \<open>\<^verbatim>\<open>str.isspace\<close> on ASCII: tab to carriage return, the four separators, the space.\<close>

definition is_space :: "char \<Rightarrow> bool" where
  "is_space c \<longleftrightarrow> (CHR 0x09 \<le> c \<and> c \<le> CHR 0x0D) \<or> (CHR 0x1C \<le> c \<and> c \<le> CHR 0x1F) \<or> c = CHR '' ''"

definition to_lower :: "char \<Rightarrow> char" where
  "to_lower c = (if is_upper c then char_of (of_char c + (32 :: nat)) else c)"

fun atom_matches :: "atom \<Rightarrow> char \<Rightarrow> bool" where
  "atom_matches (Lit c) x \<longleftrightarrow> to_lower c = to_lower x"
| "atom_matches Dot x \<longleftrightarrow> x \<noteq> CHR 0x0A"

text \<open>
  \<^verbatim>\<open>\b\<close> holds between a word character and a non-word character, the start and the end
  of the text counting as non-word.
\<close>

definition at_boundary :: "char option \<Rightarrow> string \<Rightarrow> bool" where
  "at_boundary prev s \<longleftrightarrow>
     (case prev of None \<Rightarrow> False | Some c \<Rightarrow> is_word_char c)
       \<noteq> (case s of [] \<Rightarrow> False | x # _ \<Rightarrow> is_word_char x)"

text \<open>
  Whether the pattern matches at the current position (\<open>prev\<close> is the character before
  it): the backtracking matcher finds a match exactly when one exists.
\<close>

fun match_here :: "regex \<Rightarrow> char option \<Rightarrow> string \<Rightarrow> bool" where
  "match_here [] prev s \<longleftrightarrow> True"
| "match_here (One a # r) prev [] \<longleftrightarrow> False"
| "match_here (One a # r) prev (x # s) \<longleftrightarrow> atom_matches a x \<and> match_here r (Some x) s"
| "match_here (Star a # r) prev [] \<longleftrightarrow> match_here r prev []"
| "match_here (Star a # r) prev (x # s) \<longleftrightarrow>
     match_here r prev (x # s) \<or> (atom_matches a x \<and> match_here (Star a # r) (Some x) s)"
| "match_here (WordBoundary # r) prev s \<longleftrightarrow> at_boundary prev s \<and> match_here r prev s"

text \<open>\<^verbatim>\<open>Pattern.search\<close>: a match at some position of the text.\<close>

fun search_from :: "regex \<Rightarrow> char option \<Rightarrow> string \<Rightarrow> bool" where
  "search_from r prev [] \<longleftrightarrow> match_here r prev []"
| "search_from r prev (x # s) \<longleftrightarrow> match_here r prev (x # s) \<or> search_from r (Some x) s"

definition re_search :: "regex \<Rightarrow> string \<Rightarrow> bool" where
  "re_search r text = search_from r None text"

text \<open>
  Reading a pattern text. Within the fragment the parser of \<open>re\<close> raises \<^verbatim>\<open>re.error\<close>
  for a backslash at the end of the pattern ("bad escape") and for a \<^verbatim>\<open>*\<close> that follows
  no character ("nothing to repeat", "multiple repeat"). The characters
  \<^verbatim>\<open>[ { ( ) + ? ^ $ |\<close> and an escape by a letter or digit other than \<^verbatim>\<open>\b\<close> are
  outside the fragment: the text is read from left to right and the first of them ends the
  reading.
\<close>

datatype parse_failure = SyntaxError | OutsideFragment

definition backslash :: char where
  "backslash = CHR 0x5C"

definition other_special :: "char list" where
  "other_special = ''[{()+?^$|''"

definition followed_by :: "'a \<Rightarrow> parse_failure + 'a list \<Rightarrow> parse_failure + 'a list" where
  "followed_by x r = (case r of Inl e \<Rightarrow> Inl e | Inr xs \<Rightarrow> Inr (x # xs))"

fun re_tokens :: "string \<Rightarrow> parse_failure + token list" where
  "re_tokens [] = Inr []"
| "re_tokens (c # rest) =
     (if c = backslash then
        (case rest of
           [] \<Rightarrow> Inl SyntaxError
         | d # rest' \<Rightarrow>
             if d = CHR ''b'' then followed_by TBoundary (re_tokens rest')
             else if is_alnum d then Inl OutsideFragment
             else followed_by (TAtom (Lit d)) (re_tokens rest'))
      else if c = CHR ''.'' then followed_by (TAtom Dot) (re_tokens rest)
      else if c = CHR ''*'' then followed_by TStar (re_tokens rest)
      else if c \<in> set other_special then Inl OutsideFragment
      else followed_by (TAtom (Lit c)) (re_tokens rest))"

fun re_items :: "token list \<Rightarrow> parse_failure + regex" where
  "re_items [] = Inr []"
| "re_items (TAtom a # TStar # ts) = followed_by (Star a) (re_items ts)"
| "re_items (TAtom a # ts) = followed_by (One a) (re_items ts)"
| "re_items (TBoundary # ts) = followed_by WordBoundary (re_items ts)"
| "re_items (TStar # ts) = Inl SyntaxError"

definition re_parse :: "string \<Rightarrow> parse_failure + regex" where
  "re_parse src = (case re_tokens src of Inl e \<Rightarrow> Inl e | Inr ts \<Rightarrow> re_items ts)"

text \<open>
  \<^verbatim>\<open>re.escape\<close> (Python 3.7 and later) puts a backslash before each of the characters
  \<^verbatim>\<open>()[]{}?*+-|^$\.&~#\<close>, the space and the five control characters tab, newline,
  carriage return, vertical tab and form feed.
\<close>

definition escaped_chars :: "char list" where
  "escaped_chars = ''()[]{}?*+-|^$.&~# '' @ [backslash, CHR 0x09, CHR 0x0A, CHR 0x0D, CHR 0x0B, CHR 0x0C]"

definition re_escape :: "string \<Rightarrow> string" where
  "re_escape s = concat (map (\<lambda>c. if c \<in> set escaped_chars then [backslash, c] else [c]) s)"

text \<open>
  A compiled pattern: its source text (\<^verbatim>\<open>Pattern.pattern\<close>) and its search. What
  \<^verbatim>\<open>re.compile\<close> does with a text outside the fragment is a parameter: \<open>None\<close> when it
  raises \<^verbatim>\<open>re.error\<close>, otherwise the search of the compiled pattern.
\<close>

record re_pattern =
  pattern :: string
  search :: "string \<Rightarrow> bool"

type_synonym re_library = "string \<Rightarrow> (string \<Rightarrow> bool) option"

datatype re_error = ReError string

definition re_compile :: "re_library \<Rightarrow> string \<Rightarrow> re_error + re_pattern" where
  "re_compile lib src =
     (case re_parse src of
        Inr r \<Rightarrow> Inr \<lparr>pattern = src, search = re_search r\<rparr>
      | Inl SyntaxError \<Rightarrow> Inl (ReError src)
      | Inl OutsideFragment \<Rightarrow>
         (case lib src of
            None \<Rightarrow> Inl (ReError src)
          | Some f \<Rightarrow> Inr \<lparr>pattern = src, search = f\<rparr>))"

subsection \<open>String helpers\<close>

text \<open>\<^verbatim>\<open>str.split()\<close>: the maximal runs of non-whitespace characters.\<close>

fun split_words :: "string \<Rightarrow> string \<Rightarrow> string list" where
  "split_words cur [] = (if cur = [] then [] else [cur])"
| "split_words cur (c # cs) =
     (if is_space c then (if cur = [] then [] else [cur]) @ split_words [] cs
      else split_words (cur @ [c]) cs)"

definition py_split :: "string \<Rightarrow> string list" where
  "py_split s = split_words [] s"

subsection \<open>CommitIdentityMatcher\<close>

record github_user =
  name :: "string option"
  login :: string
  email :: "string option"

text \<open>\<^verbatim>\<open>patterns.append(re.compile(src, re.IGNORECASE))\<close>\<close>

definition append_compiled ::
  "re_library \<Rightarrow> string \<Rightarrow> re_pattern list \<Rightarrow> re_error + re_pattern list" where
  "append_compiled lib src patterns =
     (case re_compile lib src of Inl e \<Rightarrow> Inl e | Inr p \<Rightarrow> Inr (patterns @ [p]))"

definition word_pattern :: "string \<Rightarrow> string" where
  "word_pattern s = [backslash, CHR ''b''] @ re_escape s @ [backslash, CHR ''b'']"

text \<open>\<^verbatim>\<open>for part in name_parts: if len(part) > 2: patterns.append(...)\<close>\<close>

fun append_name_parts ::
  "re_library \<Rightarrow> string list \<Rightarrow> re_pattern list \<Rightarrow> re_error + re_pattern list" where
  "append_name_parts lib [] patterns = Inr patterns"
| "append_name_parts lib (part # parts) patterns =
     (if length part > 2 then
        (case append_compiled lib (word_pattern part) patterns of
           Inl e \<Rightarrow> Inl e
         | Inr patterns' \<Rightarrow> append_name_parts lib parts patterns')
      else append_name_parts lib parts patterns)"

definition email_patterns :: "re_library \<Rightarrow> string \<Rightarrow> re_pattern list \<Rightarrow> re_error + re_pattern list" where
  "email_patterns lib email' patterns =
     (if email' \<noteq> [] then
        (case append_compiled lib (re_escape email') patterns of
           Inl e \<Rightarrow> Inl e
         | Inr patterns1 \<Rightarrow>
             append_compiled lib (re_escape (takeWhile (\<lambda>c. c \<noteq> CHR ''@'') email') @ ''@.*'') patterns1)
      else Inr patterns)"

definition name_patterns :: "re_library \<Rightarrow> string \<Rightarrow> re_pattern list \<Rightarrow> re_error + re_pattern list" where
  "name_patterns lib name' patterns =
     (if name' \<noteq> [] then
        (case append_compiled lib (word_pattern name') patterns of
           Inl e \<Rightarrow> Inl e
         | Inr patterns1 \<Rightarrow> append_name_parts lib (py_split name') patterns1)
      else Inr patterns)"

definition noreply_pattern :: "string \<Rightarrow> string" where
  "noreply_pattern login' = login' @ ''@users.noreply.github.com''"

text \<open>
  \<^verbatim>\<open>_build_patterns\<close>: the e-mail patterns if the profile has an e-mail address, the no-reply
  pattern (the login is put into it as it is), the login as a whole word, the name patterns
  if the profile has a name. The first pattern that does not compile ends the construction.
\<close>

definition build_patterns :: "re_library \<Rightarrow> github_user \<Rightarrow> re_error + re_pattern list" where
  "build_patterns lib github_user =
     (let name' = (case name github_user of None \<Rightarrow> [] | Some n \<Rightarrow> n);
          login' = login github_user;
          email' = (case email github_user of None \<Rightarrow> [] | Some e \<Rightarrow> e)
      in case email_patterns lib email' [] of
           Inl e \<Rightarrow> Inl e
         | Inr patterns1 \<Rightarrow>
            (case append_compiled lib (noreply_pattern login') patterns1 of
               Inl e \<Rightarrow> Inl e
             | Inr patterns2 \<Rightarrow>
                (case append_compiled lib (word_pattern login') patterns2 of
                   Inl e \<Rightarrow> Inl e
                 | Inr patterns3 \<Rightarrow> name_patterns lib name' patterns3)))"

definition is_users_commit :: "re_pattern list \<Rightarrow> string \<Rightarrow> string \<Rightarrow> bool" where
  "is_users_commit patterns commit_author commit_email =
     list_ex (\<lambda>p. search p (commit_author @ '' <'' @ commit_email @ ''>'')) patterns"

subsection \<open>Example profiles\<close>

text \<open>A library that rejects every pattern outside the fragment.\<close>

definition no_library :: re_library where
  "no_library = (\<lambda>src. None)"

definition octocat :: github_user where
  "octocat = \<lparr>name = Some ''Mona Lisa Octocat'', login = ''octocat'', email = Some ''octocat@github.com''\<rparr>"

definition hyphen_user :: github_user where
  "hyphen_user = \<lparr>name = None, login = ''-'', email = None\<rparr>"

definition star_user :: github_user where
  "star_user = \<lparr>name = None, login = ''*'', email = None\<rparr>"


subsection \<open>The logins of GitHub\<close>

text \<open>
  The matcher is built for the authenticated user of the GitHub API, and a GitHub login
  consists of letters, digits and hyphens (and, for a managed user, an underscore).
\<close>

definition github_login :: "string \<Rightarrow> bool" where
  "github_login l \<longleftrightarrow> (\<forall>c \<in> set l. is_alnum c \<or> c = CHR ''-'' \<or> c = CHR ''_'')"

section \<open>The pipeline (GitHubLocTracker.process\_all\_repos in repo\_scan.py)\<close>

text \<open>
  What the pipeline gets from outside: the repositories listed by the GitHub API, whether
  \<^verbatim>\<open>git clone\<close> of a repository ends with return code 0 (any exception and any other return
  code make \<^verbatim>\<open>clone_repo\<close> answer \<open>False\<close>), the analyzer \<^verbatim>\<open>analyze_git_repo\<close>, and the
  moment at which the job submitted as number \<open>i\<close> completes. The analyzer returns a
  history, or raises an exception that is an \<^verbatim>\<open>Exception\<close>, or raises one that is only a
  \<^verbatim>\<open>BaseException\<close> (a panic of the Rust extension arrives as such an exception). The semaphore that bounds the number of clones running
  at a time does not change what \<^verbatim>\<open>gather\<close> returns and is not modelled.
\<close>

record repository =
  repo_name :: string
  full_name :: string

datatype analysis = Returned document | RaisedException string | RaisedBaseException string

record world =
  contributed_repos :: "repository list"
  git_clone :: "repository \<Rightarrow> bool"
  analyze_git_repo :: "string \<Rightarrow> string list \<Rightarrow> analysis"
  finish_time :: "nat \<Rightarrow> nat"
  temp_dir :: string

datatype log_message =
    NoRepositoriesFound
  | CloningRepositories
  | NoRepositoriesCloned
  | SuccessfullyCloned nat
  | AggregatingStatistics
  | FailedToAnalyze string string

datatype log_record = LogError log_message | LogInfo log_message

text \<open>\<^verbatim>\<open>os.path.join\<close> of two components.\<close>

definition path_join :: "string \<Rightarrow> string \<Rightarrow> string" where
  "path_join a b =
     (if b \<noteq> [] \<and> hd b = CHR ''/'' then b
      else if a = [] \<or> last a = CHR ''/'' then a @ b
      else a @ ''/'' @ b)"

definition clone_repo :: "world \<Rightarrow> repository \<Rightarrow> string \<times> bool" where
  "clone_repo w repo = (path_join (temp_dir w) (repo_name repo), git_clone w repo)"

text \<open>
  \<^verbatim>\<open>analyze_repo_commits\<close> runs in a worker process: what it logs there, and what its future
  holds, the returned history or the exception that left the function. \<^verbatim>\<open>except Exception\<close>
  catches an \<^verbatim>\<open>Exception\<close> and returns the empty history; another \<^verbatim>\<open>BaseException\<close>
  leaves the function and is kept in the future.
\<close>

record job =
  job_path :: string
  job_log :: "log_record list"
  job_result :: "py_error + document"

definition analyze_repo_commits :: "world \<Rightarrow> string \<Rightarrow> re_pattern list \<Rightarrow> job" where
  "analyze_repo_commits w repo_path identity_patterns =
     (case analyze_git_repo w repo_path (map pattern identity_patterns) of
        Returned stats \<Rightarrow> \<lparr>job_path = repo_path, job_log = [], job_result = Inr stats\<rparr>
      | RaisedException msg \<Rightarrow>
          \<lparr>job_path = repo_path, job_log = [LogError (FailedToAnalyze repo_path msg)],
            job_result = Inr []\<rparr>
      | RaisedBaseException msg \<Rightarrow>
          \<lparr>job_path = repo_path, job_log = [], job_result = Inl (BaseException msg)\<rparr>)"

text \<open>\<^verbatim>\<open>as_completed(futures)\<close>: the futures in the order in which their jobs completed.\<close>

definition as_completed :: "world \<Rightarrow> 'a list \<Rightarrow> 'a list" where
  "as_completed w futs = map snd (sort_key (\<lambda>(i, f). finish_time w i) (enumerate 0 futs))"

text \<open>
  \<^verbatim>\<open>for future in as_completed(futures): repo_stats = future.result(); if repo_stats:
  repo_stats_list.append(repo_stats)\<close>. \<^verbatim>\<open>future.result()\<close> raises the exception that the
  future holds, and nothing catches it there.
\<close>

fun collect_results :: "document list \<Rightarrow> (py_error + document) list \<Rightarrow> py_error + document list" where
  "collect_results repo_stats_list [] = Inr repo_stats_list"
| "collect_results repo_stats_list (r # rest) =
     (case r of
        Inl e \<Rightarrow> Inl e
      | Inr repo_stats \<Rightarrow>
          collect_results (if repo_stats \<noteq> [] then repo_stats_list @ [repo_stats] else repo_stats_list)
            rest)"

definition collect_stats :: "world \<Rightarrow> job list \<Rightarrow> py_error + document list" where
  "collect_stats w futs = collect_results [] (map job_result (as_completed w futs))"

text \<open>
  The aggregation into \<^verbatim>\<open>total_monthly_stats\<close>, a defaultdict of defaultdicts of dicts that
  start with the six fields at zero; a metric that is not one of the six raises KeyError.
\<close>

definition zero_metrics :: stats where
  "zero_metrics = [(''lines'', 0), (''files'', 0), (''additions'', 0), (''deletions'', 0),
     (''modifications'', 0), (''repos'', 0)]"

definition add_metric :: "document \<Rightarrow> string \<Rightarrow> string \<Rightarrow> string \<Rightarrow> int \<Rightarrow> py_error + document" where
  "add_metric totals month ext metric v =
     (let exts = (case map_of totals month of None \<Rightarrow> [] | Some es \<Rightarrow> es);
          ms = (case map_of exts ext of None \<Rightarrow> zero_metrics | Some m \<Rightarrow> m)
      in case map_of ms metric of
           None \<Rightarrow> Inl (KeyError metric)
         | Some x \<Rightarrow>
             Inr (AList.update month (AList.update ext (AList.update metric (x + v) ms) exts) totals))"

fun aggregate_metrics :: "document \<Rightarrow> string \<Rightarrow> string \<Rightarrow> stats \<Rightarrow> py_error + document" where
  "aggregate_metrics totals month ext [] = Inr totals"
| "aggregate_metrics totals month ext ((metric, v) # rest) =
     (case add_metric totals month ext metric v of
        Inl e \<Rightarrow> Inl e
      | Inr totals' \<Rightarrow> aggregate_metrics totals' month ext rest)"

fun aggregate_exts :: "document \<Rightarrow> string \<Rightarrow> (string \<times> stats) list \<Rightarrow> py_error + document" where
  "aggregate_exts totals month [] = Inr totals"
| "aggregate_exts totals month ((ext, ms) # rest) =
     (case aggregate_metrics totals month ext ms of
        Inl e \<Rightarrow> Inl e
      | Inr totals' \<Rightarrow> aggregate_exts totals' month rest)"

fun aggregate_months :: "document \<Rightarrow> document \<Rightarrow> py_error + document" where
  "aggregate_months totals [] = Inr totals"
| "aggregate_months totals ((month, exts) # rest) =
     (case aggregate_exts totals month exts of
        Inl e \<Rightarrow> Inl e
      | Inr totals' \<Rightarrow> aggregate_months totals' rest)"

fun aggregate_repos :: "document \<Rightarrow> document list \<Rightarrow> py_error + document" where
  "aggregate_repos totals [] = Inr totals"
| "aggregate_repos totals (repo_stats # rest) =
     (case aggregate_months totals repo_stats of
        Inl e \<Rightarrow> Inl e
      | Inr totals' \<Rightarrow> aggregate_repos totals' rest)"

text \<open>The returned dict lists the months in sorted order.\<close>

definition aggregate :: "document list \<Rightarrow> py_error + document" where
  "aggregate repo_stats_list =
     (case aggregate_repos [] repo_stats_list of
        Inl e \<Rightarrow> Inl e
      | Inr totals \<Rightarrow> Inr (sort_key fst totals))"

text \<open>
  \<^verbatim>\<open>process_all_repos\<close>: what it logs, the repository paths for which an analyzer job was
  submitted to the executor, the futures of those jobs, and what it returns or raises.
\<close>

record outcome =
  logged :: "log_record list"
  submitted :: "string list"
  futures :: "job list"
  returned :: "py_error + document"

definition process_all_repos :: "world \<Rightarrow> re_pattern list \<Rightarrow> outcome" where
  "process_all_repos w patterns =
     (let repos = contributed_repos w in
      if repos = [] then
        \<lparr>logged = [LogError NoRepositoriesFound], submitted = [], futures = [], returned = Inr []\<rparr>
      else
        let results = map (clone_repo w) repos;
            repo_paths = map fst (filter snd results)
        in if length repo_paths = 0 then
             \<lparr>logged = [LogInfo CloningRepositories, LogError NoRepositoriesCloned],
               submitted = [], futures = [], returned = Inr []\<rparr>
           else
             let jobs = map (\<lambda>path. analyze_repo_commits w path patterns) repo_paths
             in case collect_stats w jobs of
                  Inl e \<Rightarrow>
                    \<lparr>logged = [LogInfo CloningRepositories,
                        LogInfo (SuccessfullyCloned (length repo_paths))],
                      submitted = repo_paths, futures = jobs, returned = Inl e\<rparr>
                | Inr repo_stats_list \<Rightarrow>
                    \<lparr>logged = [LogInfo CloningRepositories,
                        LogInfo (SuccessfullyCloned (length repo_paths)), LogInfo AggregatingStatistics],
                      submitted = repo_paths, futures = jobs,
                      returned = aggregate repo_stats_list\<rparr>)"

subsection \<open>Example worlds\<close>

definition cloud :: world where
  "cloud = \<lparr>contributed_repos = [\<lparr>repo_name = ''one'', full_name = ''octocat/one''\<rparr>,
        \<lparr>repo_name = ''two'', full_name = ''octocat/two''\<rparr>],
     git_clone = (\<lambda>repo. True),
     analyze_git_repo = (\<lambda>path patterns.
        if path = ''/tmp/w/one'' then RaisedException ''not a repository'' else Returned january_a),
     finish_time = (\<lambda>i. 2 - i),
     temp_dir = ''/tmp/w''\<rparr>"

definition offline :: world where
  "offline = cloud\<lparr>git_clone := (\<lambda>repo. False)\<rparr>"




text \<open>No listed repository can be cloned.\<close>

definition all_clones_fail :: "world \<Rightarrow> bool" where
  "all_clones_fail w \<longleftrightarrow> (\<forall>repo \<in> set (contributed_repos w). \<not> git_clone w repo)"










section \<open>The store model computes the merge on values\<close>

lemma add_fields_sim:
  "a \<noteq> b \<Longrightarrow> a < length h \<Longrightarrow>
   add_fields h a b fs = case_sum Inl (\<lambda>s. Inr (h[a := s])) (value_add_fields (h ! a) (h ! b) fs)"
proof (induction fs arbitrary: h)
  case Nil
  then show ?case by simp
next
  case (Cons f fs)
  show ?case
  proof (cases "map_of (h ! a) f")
    case None
    then show ?thesis by simp
  next
    case (Some x)
    show ?thesis
    proof (cases "map_of (h ! b) f")
      case None
      with Some show ?thesis by simp
    next
      case (Some y)
      let ?h = "h[a := AList.update f (x + y) (h ! a)]"
      have "add_fields ?h a b fs = case_sum Inl (\<lambda>s. Inr (?h[a := s])) (value_add_fields (?h ! a) (?h ! b) fs)"
        using Cons.prems by (intro Cons.IH) simp_all
      with \<open>map_of (h ! a) f = Some x\<close> Some Cons.prems show ?thesis
        by (simp split: sum.splits)
    qed
  qed
qed

lemma deref_exts_simps [simp]:
  "deref_exts h [] = []"
  "deref_exts h ((ext, a) # es) = (ext, h ! a) # deref_exts h es"
  by (simp_all add: deref_exts_def)

lemma deref_exts_other_cell:
  "a \<notin> snd ` set md \<Longrightarrow> deref_exts (h[a := s]) md = deref_exts h md"
  by (induction md) (auto simp: deref_exts_def)

lemma deref_exts_update_cell:
  "map_of md ext = Some a \<Longrightarrow> distinct (map snd md) \<Longrightarrow> a < length h \<Longrightarrow>
   deref_exts (h[a := s]) md = AList.update ext s (deref_exts h md)"
proof (induction md)
  case Nil
  then show ?case by simp
next
  case (Cons p md)
  obtain k v where p: "p = (k, v)" by (cases p)
  show ?case
  proof (cases "k = ext")
    case True
    with Cons.prems p have va: "v = a" and "a \<notin> snd ` set md" by auto
    then have "deref_exts (h[a := s]) md = deref_exts h md"
      by (rule_tac deref_exts_other_cell)
    with True va p Cons.prems show ?thesis by (simp add: deref_exts_def)
  next
    case False
    with Cons p have "deref_exts (h[a := s]) md = AList.update ext s (deref_exts h md)" and "v \<noteq> a"
      by (auto simp: rev_image_eqI dest!: map_of_SomeD)
    with False p show ?thesis by (simp add: deref_exts_def)
  qed
qed

lemma deref_exts_frame:
  "(\<And>x. x \<in> snd ` set es \<Longrightarrow> h' ! x = h ! x) \<Longrightarrow> deref_exts h' es = deref_exts h es"
  by (force simp: deref_exts_def)

lemma map_of_deref_exts: "map_of (deref_exts h md) ext = map_option (\<lambda>a. h ! a) (map_of md ext)"
  by (induction md) (auto simp: deref_exts_def)

lemma deref_exts_update:
  "deref_exts h (AList.update ext b md) = AList.update ext (h ! b) (deref_exts h md)"
  by (induction md) (auto simp: deref_exts_def)

lemma merge_exts_keys:
  "merge_exts h md es = Inr (h', md') \<Longrightarrow> map_of md' = map_of es ++ map_of md"
proof (induction es arbitrary: h md)
  case Nil
  then show ?case by simp
next
  case (Cons p es)
  obtain ext b where p: "p = (ext, b)" by (cases p)
  show ?case
  proof (cases "map_of md ext")
    case None
    with Cons.prems p have "merge_exts h (AList.update ext b md) es = Inr (h', md')" by simp
    then have "map_of md' = map_of es ++ map_of (AList.update ext b md)" by (rule Cons.IH)
    with None p show ?thesis
      by (auto simp: AList.update_conv' fun_eq_iff map_add_def split: option.splits)
  next
    case (Some a)
    with Cons.prems p obtain h1 where "merge_exts h1 md es = Inr (h', md')"
      by (auto split: sum.splits)
    then have "map_of md' = map_of es ++ map_of md" by (rule Cons.IH)
    with Some p show ?thesis
      by (auto simp: fun_eq_iff map_add_def split: option.splits)
  qed
qed

lemma add_fields_length: "add_fields h a b fs = Inr h' \<Longrightarrow> length h' = length h"
  by (induction fs arbitrary: h) (auto split: option.splits)

lemma add_fields_frame: "add_fields h a b fs = Inr h' \<Longrightarrow> x \<noteq> a \<Longrightarrow> h' ! x = h ! x"
  by (induction fs arbitrary: h) (auto split: option.splits)

lemma merge_exts_sim:
  assumes "distinct (map snd md @ map snd es)"
    and "\<forall>x \<in> set (map snd md @ map snd es). x < length h"
  shows "case merge_exts h md es of
      Inl e \<Rightarrow> value_merge_exts (deref_exts h md) (deref_exts h es) = Inl e
    | Inr (h', md') \<Rightarrow>
        value_merge_exts (deref_exts h md) (deref_exts h es) = Inr (deref_exts h' md')
        \<and> length h' = length h \<and> distinct (map snd md')
        \<and> set (map snd md) \<subseteq> set (map snd md')
        \<and> set (map snd md') \<subseteq> set (map snd md) \<union> set (map snd es)
        \<and> (\<forall>x. x \<notin> set (map snd md') \<longrightarrow> h' ! x = h ! x)"
  using assms
proof (induction es arbitrary: h md)
  case Nil
  then show ?case by simp
next
  case (Cons p es)
  obtain ext b where p: "p = (ext, b)" by (cases p)
  show ?case
  proof (cases "map_of md ext")
    case None
    let ?md = "AList.update ext b md"
    have keys: "map snd ?md = map snd md @ [b]"
      using None by (induction md) (auto split: if_splits)
    have d: "distinct (map snd ?md @ map snd es)"
      and v: "\<forall>x \<in> set (map snd ?md @ map snd es). x < length h"
      using Cons.prems p keys by auto
    note IH = Cons.IH [OF d v]
    have dn: "map_of (deref_exts h md) ext = None"
      using None by (simp add: map_of_deref_exts)
    show ?thesis
      using IH None dn p keys
      by (auto simp: deref_exts_update split: sum.splits prod.splits)
  next
    case (Some a)
    have a_in: "a \<in> set (map snd md)"
      using Some by (force dest: map_of_SomeD)
    then have ab: "a \<noteq> b" and al: "a < length h" and a_es: "a \<notin> snd ` set es"
      using Cons.prems p by auto
    have dm: "distinct (map snd md)" using Cons.prems by simp
    note sim = add_fields_sim [OF ab al, of FIELDS]
    show ?thesis
    proof (cases "add_fields h a b FIELDS")
      case (Inl e)
      with sim Some p show ?thesis
        by (auto simp: map_of_deref_exts split: sum.splits)
    next
      case (Inr h1)
      with sim obtain s where s: "value_add_fields (h ! a) (h ! b) FIELDS = Inr s" and h1: "h1 = h[a := s]"
        by (auto split: sum.splits)
      have d: "distinct (map snd md @ map snd es)"
        and v: "\<forall>x \<in> set (map snd md @ map snd es). x < length h1"
        using Cons.prems p h1 by auto
      note IH = Cons.IH [OF d v]
      have e1: "deref_exts h1 md = AList.update ext s (deref_exts h md)"
        unfolding h1 using Some dm al by (rule deref_exts_update_cell)
      have e2: "deref_exts h1 es = deref_exts h es"
        unfolding h1 using a_es by (rule deref_exts_other_cell)
      have fr: "\<And>x. x \<noteq> a \<Longrightarrow> h1 ! x = h ! x" using h1 by simp
      have step: "merge_exts h md (p # es) = merge_exts h1 md es"
        using Some p Inr by simp
      have vstep: "value_merge_exts (deref_exts h md) (deref_exts h (p # es))
          = value_merge_exts (deref_exts h1 md) (deref_exts h1 es)"
        using Some p s e1 e2 by (simp add: map_of_deref_exts)
      show ?thesis
      proof (cases "merge_exts h1 md es")
        case (Inl e)
        with IH step vstep show ?thesis by simp
      next
        case (Inr r)
        obtain h' md' where r: "r = (h', md')" by (cases r)
        from IH Inr r have *: "value_merge_exts (deref_exts h1 md) (deref_exts h1 es) = Inr (deref_exts h' md')"
          "length h' = length h1" "distinct (map snd md')" "set (map snd md) \<subseteq> set (map snd md')"
          "set (map snd md') \<subseteq> set (map snd md) \<union> set (map snd es)"
          "\<forall>x. x \<notin> set (map snd md') \<longrightarrow> h' ! x = h1 ! x"
          by simp_all
        have "\<forall>x. x \<notin> set (map snd md') \<longrightarrow> h' ! x = h ! x"
        proof (intro allI impI)
          fix x assume x: "x \<notin> set (map snd md')"
          with *(4) a_in have "x \<noteq> a" by auto
          with *(6) x fr show "h' ! x = h ! x" by simp
        qed
        with * step vstep Inr r h1 p show ?thesis by auto
      qed
    qed
  qed
qed

lemma deref_simps [simp]:
  "deref h [] = []"
  "deref h ((month, es) # ms) = (month, deref_exts h es) # deref h ms"
  "deref h (xs @ ys) = deref h xs @ deref h ys"
  by (simp_all add: deref_def)

lemma addrs_doc_simps [simp]:
  "addrs_doc [] = []"
  "addrs_doc ((month, es) # ms) = map snd es @ addrs_doc ms"
  "addrs_doc (xs @ ys) = addrs_doc xs @ addrs_doc ys"
  by (simp_all add: addrs_doc_def)

lemma map_of_deref: "map_of (deref h d) month = map_option (deref_exts h) (map_of d month)"
  by (induction d) auto

lemma deref_update:
  "deref h (AList.update month md d) = AList.update month (deref_exts h md) (deref h d)"
  by (induction d) auto

lemma deref_frame:
  "(\<And>x. x \<in> set (addrs_doc d) \<Longrightarrow> h' ! x = h ! x) \<Longrightarrow> deref h' d = deref h d"
proof (induction d)
  case Nil
  then show ?case by simp
next
  case (Cons p d)
  obtain month es where p: "p = (month, es)" by (cases p)
  have "deref_exts h' es = deref_exts h es"
    using Cons.prems p by (intro deref_exts_frame) auto
  moreover have "deref h' d = deref h d"
    using Cons.prems p by (intro Cons.IH) auto
  ultimately show ?case using p by simp
qed

lemma map_of_split:
  "map_of al k = Some v \<Longrightarrow> \<exists>pre post. al = pre @ (k, v) # post \<and> k \<notin> fst ` set pre"
proof (induction al)
  case Nil
  then show ?case by simp
next
  case (Cons p al)
  show ?case
  proof (cases "fst p = k")
    case True
    with Cons.prems have "p # al = [] @ (k, v) # al" by (cases p) auto
    then show ?thesis by force
  next
    case False
    with Cons obtain pre post where "al = pre @ (k, v) # post" "k \<notin> fst ` set pre"
      by (cases p) auto
    with False have "p # al = (p # pre) @ (k, v) # post \<and> k \<notin> fst ` set (p # pre)" by auto
    then show ?thesis by blast
  qed
qed

lemma update_split:
  "k \<notin> fst ` set pre \<Longrightarrow> AList.update k v' (pre @ (k, v) # post) = pre @ (k, v') # post"
  by (induction pre) auto

lemma update_absent: "map_of al k = None \<Longrightarrow> AList.update k v al = al @ [(k, v)]"
  by (induction al) (auto split: if_splits)

lemma acc_shape:
  obtains pre post where
    "\<And>md1. AList.update month md1 acc = pre @ (month, md1) # post"
    "addrs_doc acc = addrs_doc pre @ map snd (month_dict acc month) @ addrs_doc post"
    "\<And>h v. AList.update month v (deref h acc) = deref h pre @ (month, v) # deref h post"
proof (cases "map_of acc month")
  case None
  then have "map_of (deref h acc) month = None" for h by (simp add: map_of_deref)
  then have "AList.update month v (deref h acc) = deref h acc @ (month, v) # deref h []" for h v
    by (simp add: update_absent)
  moreover have "AList.update month md1 acc = acc @ (month, md1) # []" for md1
    using None by (simp add: update_absent)
  moreover have "addrs_doc acc = addrs_doc acc @ map snd (month_dict acc month) @ addrs_doc []"
    using None by (simp add: month_dict_def)
  ultimately show ?thesis using that by blast
next
  case (Some md)
  then obtain pre post where sp: "acc = pre @ (month, md) # post" "month \<notin> fst ` set pre"
    using map_of_split by fastforce
  have k: "month \<notin> fst ` set (deref h pre)" for h
    using sp(2) by (force simp: deref_def)
  have "AList.update month v (deref h acc) = deref h pre @ (month, v) # deref h post" for h v
    unfolding sp(1) using k [of h] by (simp add: update_split)
  moreover have "AList.update month md1 acc = pre @ (month, md1) # post" for md1
    unfolding sp(1) using sp(2) by (rule update_split)
  moreover have "addrs_doc acc = addrs_doc pre @ map snd (month_dict acc month) @ addrs_doc post"
    using Some sp(1) by (simp add: month_dict_def)
  ultimately show ?thesis using that by blast
qed

lemma distinct_replace:
  "distinct (pre @ m @ post @ e @ rest) \<Longrightarrow> distinct m1 \<Longrightarrow> set m1 \<subseteq> set m \<union> set e \<Longrightarrow>
   distinct (pre @ m1 @ post @ rest)"
  by auto

lemma all_replace:
  "\<forall>x \<in> set (pre @ m @ post @ e @ rest). P x \<Longrightarrow> set m1 \<subseteq> set m \<union> set e \<Longrightarrow>
   \<forall>x \<in> set (pre @ m1 @ post @ rest). P x"
  by auto

lemma disjoint_replace:
  "distinct (pre @ m @ post @ e @ rest) \<Longrightarrow> set m1 \<subseteq> set m \<union> set e \<Longrightarrow>
   x \<in> set pre \<union> set post \<union> set rest \<Longrightarrow> x \<notin> set m1"
  by auto

lemma merge_months_sim:
  assumes "distinct (addrs_doc acc @ addrs_doc data)"
    and "\<forall>x \<in> set (addrs_doc acc @ addrs_doc data). x < length h"
  shows "case merge_months h acc data of
      Inl e \<Rightarrow> value_merge_months (deref h acc) (deref h data) = Inl e
    | Inr (h', acc') \<Rightarrow>
        value_merge_months (deref h acc) (deref h data) = Inr (deref h' acc')
        \<and> length h' = length h \<and> distinct (addrs_doc acc')
        \<and> set (addrs_doc acc) \<subseteq> set (addrs_doc acc')
        \<and> set (addrs_doc acc') \<subseteq> set (addrs_doc acc) \<union> set (addrs_doc data)
        \<and> (\<forall>x. x \<notin> set (addrs_doc acc') \<longrightarrow> h' ! x = h ! x)"
  using assms
proof (induction data arbitrary: h acc)
  case Nil
  then show ?case by simp
next
  case (Cons p ms)
  obtain month es where p: "p = (month, es)" by (cases p)
  let ?md = "month_dict acc month"
  obtain pre post where sh:
    "\<And>md1. AList.update month md1 acc = pre @ (month, md1) # post"
    "addrs_doc acc = addrs_doc pre @ map snd ?md @ addrs_doc post"
    "\<And>h v. AList.update month v (deref h acc) = deref h pre @ (month, v) # deref h post"
    using acc_shape [where month = month and acc = acc] by metis
  have d0: "distinct (map snd ?md @ map snd es)"
    and v0: "\<forall>x \<in> set (map snd ?md @ map snd es). x < length h"
    using Cons.prems p sh(2) by auto
  note ex = merge_exts_sim [OF d0 v0]
  have vmd: "month_dict (deref h acc) month = deref_exts h ?md"
    by (simp add: month_dict_def map_of_deref split: option.splits)
  show ?case
  proof (cases "merge_exts h ?md es")
    case (Inl e)
    with ex p vmd show ?thesis by (simp add: month_dict_def)
  next
    case (Inr r)
    obtain h1 md1 where r: "r = (h1, md1)" by (cases r)
    from ex Inr r have *: "value_merge_exts (deref_exts h ?md) (deref_exts h es) = Inr (deref_exts h1 md1)"
      "length h1 = length h" "distinct (map snd md1)" "set (map snd ?md) \<subseteq> set (map snd md1)"
      "set (map snd md1) \<subseteq> set (map snd ?md) \<union> set (map snd es)"
      "\<forall>x. x \<notin> set (map snd md1) \<longrightarrow> h1 ! x = h ! x"
      by simp_all
    let ?acc1 = "AList.update month md1 acc"
    have a1: "addrs_doc ?acc1 = addrs_doc pre @ map snd md1 @ addrs_doc post"
      by (simp add: sh(1))
    have d00: "distinct (addrs_doc pre @ map snd ?md @ addrs_doc post @ map snd es @ addrs_doc ms)"
      using Cons.prems(1) p unfolding sh(2) by simp
    have d1: "distinct (addrs_doc ?acc1 @ addrs_doc ms)"
      unfolding a1 using distinct_replace [OF d00 *(3) *(5)] by simp
    have v00: "\<forall>x \<in> set (addrs_doc pre @ map snd ?md @ addrs_doc post @ map snd es @ addrs_doc ms). x < length h1"
      using Cons.prems(2) p *(2) unfolding sh(2) by simp
    have v1: "\<forall>x \<in> set (addrs_doc ?acc1 @ addrs_doc ms). x < length h1"
      unfolding a1 using all_replace [OF v00 *(5)] by simp
    note dj = disjoint_replace [OF d00 *(5)]
    note IH = Cons.IH [OF d1 v1]
    have fpre: "deref h1 pre = deref h pre"
      using dj *(6) by (intro deref_frame) simp
    have fpost: "deref h1 post = deref h post"
      using dj *(6) by (intro deref_frame) simp
    have fms: "deref h1 ms = deref h ms"
      using dj *(6) by (intro deref_frame) simp
    have dacc1: "deref h1 ?acc1 = AList.update month (deref_exts h1 md1) (deref h acc)"
      by (simp add: sh(1) sh(3) fpre fpost)
    have step: "merge_months h acc (p # ms) = merge_months h1 ?acc1 ms"
      using Inr r p by (simp add: month_dict_def)
    have vstep: "value_merge_months (deref h acc) (deref h (p # ms))
        = value_merge_months (deref h1 ?acc1) (deref h1 ms)"
      using p * vmd dacc1 fms by (simp add: month_dict_def)
    have sub1: "set (addrs_doc acc) \<subseteq> set (addrs_doc ?acc1)"
      using *(4) unfolding a1 sh(2) set_append by blast
    have sub2: "set (addrs_doc ?acc1) \<subseteq> set (addrs_doc acc) \<union> set (map snd es)"
      using *(5) unfolding a1 sh(2) set_append by blast
    show ?thesis
    proof (cases "merge_months h1 ?acc1 ms")
      case (Inl e)
      with IH step vstep show ?thesis by simp
    next
      case (Inr r2)
      obtain h2 acc2 where r2: "r2 = (h2, acc2)" by (cases r2)
      from IH Inr r2 have **: "value_merge_months (deref h1 ?acc1) (deref h1 ms) = Inr (deref h2 acc2)"
        "length h2 = length h1" "distinct (addrs_doc acc2)"
        "set (addrs_doc ?acc1) \<subseteq> set (addrs_doc acc2)"
        "set (addrs_doc acc2) \<subseteq> set (addrs_doc ?acc1) \<union> set (addrs_doc ms)"
        "\<forall>x. x \<notin> set (addrs_doc acc2) \<longrightarrow> h2 ! x = h1 ! x"
        by simp_all
      have "\<forall>x. x \<notin> set (addrs_doc acc2) \<longrightarrow> h2 ! x = h ! x"
      proof (intro allI impI)
        fix x assume x: "x \<notin> set (addrs_doc acc2)"
        with **(4) have "x \<notin> set (map snd md1)" unfolding a1 set_append by blast
        with *(6) **(6) x show "h2 ! x = h ! x" by simp
      qed
      moreover have "set (addrs_doc acc) \<subseteq> set (addrs_doc acc2)"
        using sub1 **(4) by blast
      moreover have "set (addrs_doc acc2) \<subseteq> set (addrs_doc acc) \<union> set (addrs_doc (p # ms))"
        using sub2 **(5) unfolding p addrs_doc_simps set_append by blast
      ultimately show ?thesis
        using ** *(2) step vstep Inr r2 by simp
    qed
  qed
qed

lemma load_exts_spec:
  "load_exts h es = (h', r) \<Longrightarrow>
   h' = h @ map snd es \<and> distinct (map snd r) \<and> set (map snd r) = {length h ..< length h'}
   \<and> map fst r = map fst es \<and> deref_exts (h' @ t) r = es"
proof (induction es arbitrary: h h' r)
  case Nil
  then show ?case by simp
next
  case (Cons p es)
  obtain ext st where p: "p = (ext, st)" by (cases p)
  obtain h1 r1 where l: "load_exts (h @ [st]) es = (h1, r1)" by (cases "load_exts (h @ [st]) es")
  with Cons.prems p have r: "h' = h1" "r = (ext, length h) # r1" by simp_all
  from Cons.IH [OF l] have IH: "h1 = (h @ [st]) @ map snd es" "distinct (map snd r1)"
    "set (map snd r1) = {length (h @ [st]) ..< length h1}" "map fst r1 = map fst es"
    "deref_exts (h1 @ t) r1 = es" by blast+
  have c: "(h1 @ t) ! length h = st" unfolding IH(1) by (simp add: nth_append)
  have len: "length h1 = Suc (length h + length es)" unfolding IH(1) by simp
  have "{length h ..< length h1} = insert (length h) {length (h @ [st]) ..< length h1}"
    unfolding len by auto
  moreover have "length h \<notin> set (map snd r1)" unfolding IH(3) by simp
  ultimately show ?case using r p IH c by simp
qed

lemma json_load_spec:
  "json_load h doc = (h', data) \<Longrightarrow>
   (\<exists>new. h' = h @ new) \<and> distinct (addrs_doc data)
   \<and> set (addrs_doc data) = {length h ..< length h'} \<and> deref (h' @ t) data = doc"
proof (induction doc arbitrary: h h' data t)
  case Nil
  then show ?case by simp
next
  case (Cons p ms)
  obtain month es where p: "p = (month, es)" by (cases p)
  obtain h1 res where l1: "load_exts h es = (h1, res)" by (cases "load_exts h es")
  obtain h2 r where l2: "json_load h1 ms = (h2, r)" by (cases "json_load h1 ms")
  from Cons.prems p l1 l2 have r: "h' = h2" "data = (month, res) # r" by simp_all
  from Cons.IH [OF l2] obtain new where IH: "h2 = h1 @ new" "distinct (addrs_doc r)"
    "set (addrs_doc r) = {length h1 ..< length h2}" "deref (h2 @ t) r = ms" by blast
  from load_exts_spec [OF l1, of "new @ t"] have E: "h1 = h @ map snd es" "distinct (map snd res)"
    "set (map snd res) = {length h ..< length h1}" "deref_exts (h1 @ new @ t) res = es" by blast+
  have le: "length h \<le> length h1" "length h1 \<le> length h2" unfolding IH(1) E(1) by simp_all
  then have "{length h ..< length h2} = {length h ..< length h1} \<union> {length h1 ..< length h2}"
    by auto
  moreover have "{length h ..< length h1} \<inter> {length h1 ..< length h2} = {}" by auto
  moreover have "\<exists>new. h2 = h @ new" unfolding IH(1) E(1) by simp
  ultimately show ?case unfolding r using p IH(2,3,4) E(2,3,4) unfolding IH(1)
    by (simp del: set_map)
qed

lemma merge_files_sim:
  "heap_inv s \<Longrightarrow>
   (case merge_files fs s fl of
      Inl e \<Rightarrow> value_merge_files fs (deref (heap s) (merged s)) fl = Inl e
    | Inr s' \<Rightarrow> value_merge_files fs (deref (heap s) (merged s)) fl = Inr (deref (heap s') (merged s'))
        \<and> heap_inv s')"
proof (induction fl arbitrary: s)
  case Nil
  then show ?case by simp
next
  case (Cons path rest)
  show ?case
  proof (cases "fs path")
    case None
    then show ?thesis by simp
  next
    case (Some doc)
    obtain h1 data where l: "json_load (heap s) doc = (h1, data)" by (cases "json_load (heap s) doc")
    from json_load_spec [OF l, of "[]"] obtain new where L: "h1 = heap s @ new"
      "deref h1 data = doc" and L2: "distinct (addrs_doc data)"
      "set (addrs_doc data) = {length (heap s) ..< length h1}" by auto
    have d: "distinct (addrs_doc (merged s) @ addrs_doc data)"
      using Cons.prems L2 unfolding heap_inv_def by auto
    have v: "\<forall>x \<in> set (addrs_doc (merged s) @ addrs_doc data). x < length h1"
      using Cons.prems L2 unfolding heap_inv_def by (auto simp: L(1))
    have fr: "deref h1 (merged s) = deref (heap s) (merged s)"
      using Cons.prems unfolding heap_inv_def L(1) by (intro deref_frame) (simp add: nth_append)
    note sim = merge_months_sim [OF d v]
    show ?thesis
    proof (cases "merge_months h1 (merged s) data")
      case (Inl e)
      with sim Some l L(2) fr show ?thesis by simp
    next
      case (Inr r)
      obtain h2 m2 where r: "r = (h2, m2)" by (cases r)
      let ?s = "\<lparr>heap = h2, merged = m2, loaded = loaded s @ [data]\<rparr>"
      from sim Inr r have *: "value_merge_months (deref h1 (merged s)) (deref h1 data) = Inr (deref h2 m2)"
        "length h2 = length h1" "distinct (addrs_doc m2)"
        "set (addrs_doc m2) \<subseteq> set (addrs_doc (merged s)) \<union> set (addrs_doc data)" by simp_all
      have "heap_inv ?s"
        using * v unfolding heap_inv_def by auto
      from Cons.IH [OF this] have A: "case merge_files fs ?s rest of
          Inl e \<Rightarrow> value_merge_files fs (deref h2 m2) rest = Inl e
        | Inr s' \<Rightarrow> value_merge_files fs (deref h2 m2) rest = Inr (deref (heap s') (merged s'))
            \<and> heap_inv s'" by (simp cong: sum.case_cong)
      have B: "merge_files fs s (path # rest) = merge_files fs ?s rest"
        using Some l Inr r by simp
      have C: "value_merge_files fs (deref (heap s) (merged s)) (path # rest)
          = value_merge_files fs (deref h2 m2) rest"
        using Some *(1) L(2) fr by simp
      show ?thesis unfolding B C by (rule A)
    qed
  qed
qed

lemma merge_loc_histories_value:
  "merge_loc_histories fs fl = value_merge_files fs [] fl"
proof -
  have "heap_inv init_state" by (simp add: heap_inv_def init_state_def)
  from merge_files_sim [OF this, of fs fl] show ?thesis
    by (auto simp: merge_loc_histories_def merge_run_def init_state_def split: sum.splits)
qed

section \<open>What the merge does to one (month, extension) pair\<close>

lemma value_merge_exts_dict_merge: "value_merge_exts md es = dict_merge combine md es"
  by (induction md es rule: value_merge_exts.induct) (auto simp: combine_def split: sum.splits option.splits)

lemma value_merge_months_dict_merge: "value_merge_months acc d = dict_merge combine_exts acc d"
  by (induction acc d rule: value_merge_months.induct) (auto simp: combine_exts_def split: sum.splits option.splits)

lemma dict_merge_absent:
  "dict_merge c acc xs = Inr acc' \<Longrightarrow> map_of xs k = None \<Longrightarrow> map_of acc' k = map_of acc k"
proof (induction xs arbitrary: acc)
  case Nil
  then show ?case by simp
next
  case (Cons p xs)
  obtain k' w where p: "p = (k', w)" by (cases p)
  with Cons.prems obtain v where v: "c (map_of acc k') w = Inr v"
    "dict_merge c (AList.update k' v acc) xs = Inr acc'" by (auto split: sum.splits)
  from Cons.prems(2) p have "k' \<noteq> k" "map_of xs k = None" by (auto split: if_splits)
  with Cons.IH [OF v(2)] show ?case by (simp add: AList.update_conv')
qed

lemma dict_merge_present:
  "dict_merge c acc xs = Inr acc' \<Longrightarrow> is_dict xs \<Longrightarrow> map_of xs k = Some w \<Longrightarrow>
   \<exists>v. c (map_of acc k) w = Inr v \<and> map_of acc' k = Some v"
proof (induction xs arbitrary: acc)
  case Nil
  then show ?case by simp
next
  case (Cons p xs)
  obtain k' w' where p: "p = (k', w')" by (cases p)
  with Cons.prems obtain v where v: "c (map_of acc k') w' = Inr v"
    "dict_merge c (AList.update k' v acc) xs = Inr acc'" by (auto split: sum.splits)
  from Cons.prems(2) p have d: "is_dict xs" "map_of xs k' = None"
    by (auto simp: is_dict_def map_of_eq_None_iff)
  show ?case
  proof (cases "k' = k")
    case True
    with Cons.prems(3) p have "w' = w" by simp
    moreover from dict_merge_absent [OF v(2) d(2)] have "map_of acc' k' = Some v"
      by (simp add: AList.update_conv')
    ultimately show ?thesis using v(1) True by simp
  next
    case False
    with Cons.prems(3) p have "map_of xs k = Some w" by simp
    from Cons.IH [OF v(2) d(1) this] False show ?thesis by (simp add: AList.update_conv')
  qed
qed

lemma dict_merge_error:
  "dict_merge c acc xs = Inl err \<Longrightarrow> is_dict xs \<Longrightarrow>
   \<exists>k w. map_of xs k = Some w \<and> c (map_of acc k) w = Inl err"
proof (induction xs arbitrary: acc)
  case Nil
  then show ?case by simp
next
  case (Cons p xs)
  obtain k' w' where p: "p = (k', w')" by (cases p)
  from Cons.prems(2) p have d: "is_dict xs" "map_of xs k' = None"
    by (auto simp: is_dict_def map_of_eq_None_iff)
  show ?case
  proof (cases "c (map_of acc k') w'")
    case (Inl e)
    with Cons.prems(1) p have "e = err" by simp
    with Inl p show ?thesis by (intro exI [of _ k'] exI [of _ w']) simp
  next
    case (Inr v)
    with Cons.prems(1) p have "dict_merge c (AList.update k' v acc) xs = Inl err" by simp
    from Cons.IH [OF this d(1)] obtain k w where kw: "map_of xs k = Some w"
      "c (map_of (AList.update k' v acc) k) w = Inl err" by blast
    with d(2) have "k \<noteq> k'" by auto
    with kw p show ?thesis by (intro exI [of _ k] exI [of _ w]) (simp add: AList.update_conv')
  qed
qed

lemma dict_merge_is_dict:
  "dict_merge c acc xs = Inr acc' \<Longrightarrow> is_dict acc \<Longrightarrow> is_dict acc'"
proof (induction xs arbitrary: acc)
  case Nil
  then show ?case by simp
next
  case (Cons p xs)
  obtain k' w' where p: "p = (k', w')" by (cases p)
  with Cons.prems obtain v where v: "dict_merge c (AList.update k' v acc) xs = Inr acc'"
    by (auto split: sum.splits)
  from Cons.prems(2) have "is_dict (AList.update k' v acc)"
    unfolding is_dict_def by (rule distinct_update)
  from Cons.IH [OF v this] show ?case .
qed

lemma dict_merge_dom:
  "dict_merge c acc xs = Inr acc' \<Longrightarrow> fst ` set acc' = fst ` set acc \<union> fst ` set xs"
proof (induction xs arbitrary: acc)
  case Nil
  then show ?case by simp
next
  case (Cons p xs)
  obtain k' w' where p: "p = (k', w')" by (cases p)
  with Cons.prems obtain v where v: "dict_merge c (AList.update k' v acc) xs = Inr acc'"
    by (auto split: sum.splits)
  from Cons.IH [OF v] p show ?case by (auto simp: dom_update)
qed

lemma lookup2_month_dict:
  "map_of (case map_of acc m of None \<Rightarrow> [] | Some d \<Rightarrow> d) e = lookup2 acc m e"
  by (simp add: lookup2_def split: option.splits)

lemma dict_doc_month: "dict_doc d \<Longrightarrow> map_of d m = Some es \<Longrightarrow> is_dict es"
  by (auto simp: dict_doc_def dest!: map_of_SomeD)

lemma months_present:
  assumes "value_merge_months acc d = Inr acc'" "dict_doc d" "lookup2 d m e = Some st"
  shows "\<exists>r. combine (lookup2 acc m e) st = Inr r \<and> lookup2 acc' m e = Some r"
proof -
  from assms(3) obtain es where es: "map_of d m = Some es" "map_of es e = Some st"
    by (auto simp: lookup2_def split: option.splits)
  from assms(2) have "is_dict d" by (simp add: dict_doc_def)
  from dict_merge_present [OF assms(1) [unfolded value_merge_months_dict_merge] this es(1)]
  obtain r' where r': "combine_exts (map_of acc m) es = Inr r'" "map_of acc' m = Some r'" by blast
  from r'(1) have "dict_merge combine (case map_of acc m of None \<Rightarrow> [] | Some d \<Rightarrow> d) es = Inr r'"
    by (simp add: combine_exts_def value_merge_exts_dict_merge)
  from dict_merge_present [OF this dict_doc_month [OF assms(2) es(1)] es(2)]
  show ?thesis using r'(2) by (simp add: lookup2_month_dict lookup2_def)
qed

lemma months_absent:
  assumes "value_merge_months acc d = Inr acc'" "dict_doc d" "lookup2 d m e = None"
  shows "lookup2 acc' m e = lookup2 acc m e"
proof (cases "map_of d m")
  case None
  from dict_merge_absent [OF assms(1) [unfolded value_merge_months_dict_merge] None]
  show ?thesis by (simp add: lookup2_def)
next
  case (Some es)
  with assms(3) have e: "map_of es e = None" by (simp add: lookup2_def)
  from assms(2) have "is_dict d" by (simp add: dict_doc_def)
  from dict_merge_present [OF assms(1) [unfolded value_merge_months_dict_merge] this Some]
  obtain r' where r': "combine_exts (map_of acc m) es = Inr r'" "map_of acc' m = Some r'" by blast
  from r'(1) have "dict_merge combine (case map_of acc m of None \<Rightarrow> [] | Some d \<Rightarrow> d) es = Inr r'"
    by (simp add: combine_exts_def value_merge_exts_dict_merge)
  from dict_merge_absent [OF this e] show ?thesis
    using r'(2) by (simp add: lookup2_month_dict) (simp add: lookup2_def)
qed

lemma months_error:
  assumes "value_merge_months acc d = Inl err" "dict_doc d"
  shows "\<exists>m e st. lookup2 d m e = Some st \<and> combine (lookup2 acc m e) st = Inl err"
proof -
  from assms(2) have "is_dict d" by (simp add: dict_doc_def)
  from dict_merge_error [OF assms(1) [unfolded value_merge_months_dict_merge] this]
  obtain m es where es: "map_of d m = Some es" "combine_exts (map_of acc m) es = Inl err" by blast
  from es(2) have "dict_merge combine (case map_of acc m of None \<Rightarrow> [] | Some d \<Rightarrow> d) es = Inl err"
    by (simp add: combine_exts_def value_merge_exts_dict_merge)
  from dict_merge_error [OF this dict_doc_month [OF assms(2) es(1)]]
  obtain e st where "map_of es e = Some st" "combine (lookup2 acc m e) st = Inl err"
    by (auto simp: lookup2_month_dict)
  moreover from this(1) es(1) have "lookup2 d m e = Some st" by (simp add: lookup2_def)
  ultimately show ?thesis by blast
qed

lemma months_keys:
  assumes "value_merge_months acc d = Inr acc'"
  shows "map_of acc' m = None \<longleftrightarrow> map_of acc m = None \<and> map_of d m = None"
  using dict_merge_dom [OF assms [unfolded value_merge_months_dict_merge]]
  by (auto simp: map_of_eq_None_iff)

lemma months_dict_doc:
  assumes "value_merge_months acc d = Inr acc'" "dict_doc d" "dict_doc acc"
  shows "dict_doc acc'"
proof -
  note dm = assms(1) [unfolded value_merge_months_dict_merge]
  from assms(3) have "is_dict acc" by (simp add: dict_doc_def)
  from dict_merge_is_dict [OF dm this] have top: "is_dict acc'" .
  have "is_dict es'" if "(m, es') \<in> set acc'" for m es'
  proof -
    from that top have s: "map_of acc' m = Some es'" by (simp add: is_dict_def)
    show ?thesis
    proof (cases "map_of d m")
      case None
      from dict_merge_absent [OF dm None] s have "map_of acc m = Some es'" by simp
      with assms(3) show ?thesis by (rule dict_doc_month)
    next
      case (Some es)
      from assms(2) have "is_dict d" by (simp add: dict_doc_def)
      from dict_merge_present [OF dm this Some] s
      have "dict_merge combine (case map_of acc m of None \<Rightarrow> [] | Some d \<Rightarrow> d) es = Inr es'"
        by (auto simp: combine_exts_def value_merge_exts_dict_merge)
      moreover have "is_dict (case map_of acc m of None \<Rightarrow> [] | Some d \<Rightarrow> d)"
        using assms(3) by (auto simp: is_dict_def [of "[]"] dict_doc_month split: option.splits)
      ultimately show ?thesis by (rule dict_merge_is_dict)
    qed
  qed
  with top show ?thesis by (auto simp: dict_doc_def)
qed

lemma docs_entry:
  "value_merge_docs acc ds = Inr acc' \<Longrightarrow> \<forall>d \<in> set ds. dict_doc d \<Longrightarrow>
   fold_entry (lookup2 acc m e) (map (\<lambda>d. lookup2 d m e) ds) = Inr (lookup2 acc' m e)"
proof (induction ds arbitrary: acc)
  case Nil
  then show ?case by simp
next
  case (Cons d ds)
  from Cons.prems obtain acc1 where a: "value_merge_months acc d = Inr acc1"
    "value_merge_docs acc1 ds = Inr acc'" by (auto split: sum.splits)
  from Cons.prems(2) have dd: "dict_doc d" "\<forall>d \<in> set ds. dict_doc d" by simp_all
  note IH = Cons.IH [OF a(2) dd(2)]
  show ?case
  proof (cases "lookup2 d m e")
    case None
    with months_absent [OF a(1) dd(1) None] IH show ?thesis by simp
  next
    case (Some st)
    with months_present [OF a(1) dd(1) Some] IH show ?thesis by auto
  qed
qed

lemma docs_error:
  "value_merge_docs acc ds = Inl err \<Longrightarrow> \<forall>d \<in> set ds. dict_doc d \<Longrightarrow>
   \<exists>m e. fold_entry (lookup2 acc m e) (map (\<lambda>d. lookup2 d m e) ds) = Inl err"
proof (induction ds arbitrary: acc)
  case Nil
  then show ?case by simp
next
  case (Cons d ds)
  from Cons.prems(2) have dd: "dict_doc d" "\<forall>d \<in> set ds. dict_doc d" by simp_all
  show ?case
  proof (cases "value_merge_months acc d")
    case (Inl e')
    with Cons.prems(1) have e': "value_merge_months acc d = Inl err" by simp
    from months_error [OF this dd(1)] obtain m e st where
      "lookup2 d m e = Some st" "combine (lookup2 acc m e) st = Inl err" by blast
    then have "fold_entry (lookup2 acc m e) (map (\<lambda>d. lookup2 d m e) (d # ds)) = Inl err" by simp
    then show ?thesis by blast
  next
    case (Inr acc1)
    with Cons.prems(1) have "value_merge_docs acc1 ds = Inl err" by simp
    from Cons.IH [OF this dd(2)] obtain m e where
      f: "fold_entry (lookup2 acc1 m e) (map (\<lambda>d. lookup2 d m e) ds) = Inl err" by blast
    have "fold_entry (lookup2 acc m e) (map (\<lambda>d. lookup2 d m e) (d # ds)) = Inl err"
    proof (cases "lookup2 d m e")
      case None
      with months_absent [OF Inr dd(1) None] f show ?thesis by simp
    next
      case (Some st)
      with months_present [OF Inr dd(1) Some] f show ?thesis by auto
    qed
    then show ?thesis by blast
  qed
qed

lemma docs_keys:
  "value_merge_docs acc ds = Inr acc' \<Longrightarrow>
   map_of acc' m = None \<longleftrightarrow> map_of acc m = None \<and> (\<forall>d \<in> set ds. map_of d m = None)"
proof (induction ds arbitrary: acc)
  case Nil
  then show ?case by simp
next
  case (Cons d ds)
  from Cons.prems obtain acc1 where a: "value_merge_months acc d = Inr acc1"
    "value_merge_docs acc1 ds = Inr acc'" by (auto split: sum.splits)
  from Cons.IH [OF a(2)] months_keys [OF a(1)] show ?case by auto
qed

lemma docs_dict_doc:
  "value_merge_docs acc ds = Inr acc' \<Longrightarrow> \<forall>d \<in> set ds. dict_doc d \<Longrightarrow> dict_doc acc \<Longrightarrow> dict_doc acc'"
proof (induction ds arbitrary: acc)
  case Nil
  then show ?case by simp
next
  case (Cons d ds)
  from Cons.prems obtain acc1 where a: "value_merge_months acc d = Inr acc1"
    "value_merge_docs acc1 ds = Inr acc'" by (auto split: sum.splits)
  from months_dict_doc [OF a(1)] Cons.prems have "dict_doc acc1" by simp
  with Cons.IH [OF a(2)] Cons.prems(2) show ?case by simp
qed

lemma value_add_fields_Inr:
  "value_add_fields a st fs = Inr a' \<Longrightarrow> distinct fs \<Longrightarrow>
   map fst a' = map fst a
   \<and> (\<forall>f \<in> set fs. map_of a f \<noteq> None \<and> map_of st f \<noteq> None)
   \<and> (\<forall>k. map_of a' k = (if k \<in> set fs then Some (the (map_of a k) + the (map_of st k)) else map_of a k))"
proof (induction fs arbitrary: a)
  case Nil
  then show ?case by simp
next
  case (Cons f fs)
  from Cons.prems(1) obtain x y where xy: "map_of a f = Some x" "map_of st f = Some y"
    "value_add_fields (AList.update f (x + y) a) st fs = Inr a'"
    by (auto split: option.splits)
  from Cons.prems(2) have d: "distinct fs" "f \<notin> set fs" by simp_all
  from xy(1) have "f \<in> set (map fst a)" by (force dest: map_of_SomeD)
  then have keys: "map fst (AList.update f (x + y) a) = map fst a" by (simp add: update_keys)
  from Cons.IH [OF xy(3) d(1)] have IH: "map fst a' = map fst (AList.update f (x + y) a)"
    "\<And>g. g \<in> set fs \<Longrightarrow> map_of (AList.update f (x + y) a) g \<noteq> None \<and> map_of st g \<noteq> None"
    "\<And>k. map_of a' k = (if k \<in> set fs
        then Some (the (map_of (AList.update f (x + y) a) k) + the (map_of st k))
        else map_of (AList.update f (x + y) a) k)" by blast+
  have upd: "map_of (AList.update f (x + y) a) g = (if g = f then Some (x + y) else map_of a g)" for g
    by (simp add: AList.update_conv')
  have 1: "map fst a' = map fst a" using IH(1) keys by simp
  have 2: "\<forall>g \<in> set (f # fs). map_of a g \<noteq> None \<and> map_of st g \<noteq> None"
  proof
    fix g assume "g \<in> set (f # fs)"
    then show "map_of a g \<noteq> None \<and> map_of st g \<noteq> None"
      using xy(1,2) IH(2) [of g] d(2) unfolding upd by (cases "g = f") auto
  qed
  have 3: "\<forall>k. map_of a' k = (if k \<in> set (f # fs) then Some (the (map_of a k) + the (map_of st k)) else map_of a k)"
  proof
    fix k show "map_of a' k = (if k \<in> set (f # fs) then Some (the (map_of a k) + the (map_of st k)) else map_of a k)"
      unfolding IH(3) upd using xy(1,2) d(2) by (cases "k = f") auto
  qed
  from 1 2 3 show ?case by blast
qed

lemma value_add_fields_Inl:
  "value_add_fields a st fs = Inl err \<Longrightarrow>
   \<exists>f \<in> set fs. err = KeyError f \<and> (map_of a f = None \<or> map_of st f = None)"
proof (induction fs arbitrary: a)
  case Nil
  then show ?case by simp
next
  case (Cons f fs)
  show ?case
  proof (cases "map_of a f = None \<or> map_of st f = None")
    case True
    with Cons.prems show ?thesis by (auto split: option.splits)
  next
    case False
    then obtain x y where xy: "map_of a f = Some x" "map_of st f = Some y" by auto
    with Cons.prems have "value_add_fields (AList.update f (x + y) a) st fs = Inl err" by simp
    from Cons.IH [OF this] obtain g where g: "g \<in> set fs" "err = KeyError g"
      "map_of (AList.update f (x + y) a) g = None \<or> map_of st g = None" by blast
    then have "map_of a g = None \<or> map_of st g = None"
      by (auto simp: AList.update_conv' split: if_splits)
    with g show ?thesis by auto
  qed
qed

lemma distinct_FIELDS: "distinct FIELDS"
  by (simp add: FIELDS_def)

lemma combine_Some_Inr:
  assumes "combine (Some a) st = Inr a'"
  shows "map fst a' = map fst a" "complete a" "complete st" "complete a'"
    "map_of a' k = (if k \<in> set FIELDS then Some (the (map_of a k) + the (map_of st k)) else map_of a k)"
proof -
  from assms have "value_add_fields a st FIELDS = Inr a'" by (simp add: combine_def)
  note * = value_add_fields_Inr [OF this distinct_FIELDS]
  from * show "map fst a' = map fst a" "complete a" "complete st"
    by (simp_all add: complete_def)
  from * show k: "map_of a' k = (if k \<in> set FIELDS then Some (the (map_of a k) + the (map_of st k)) else map_of a k)" for k
    by blast
  show "complete a'" unfolding complete_def using * by simp
qed

lemma combine_Some_Inl:
  assumes "combine (Some a) st = Inl err"
  shows "(\<exists>f \<in> set FIELDS. err = KeyError f) \<and> (\<not> complete a \<or> \<not> complete st)"
proof -
  from assms have "value_add_fields a st FIELDS = Inl err" by (simp add: combine_def)
  from value_add_fields_Inl [OF this] show ?thesis by (auto simp: complete_def)
qed

lemma fold_entry_occurrences:
  "fold_entry acc (map (\<lambda>d. lookup2 d m e) ds) = fold_entry acc (map Some (occurrences ds m e))"
proof (induction ds arbitrary: acc)
  case Nil
  then show ?case by (simp add: occurrences_def)
next
  case (Cons d ds)
  then show ?case
    by (cases "lookup2 d m e") (auto simp: occurrences_def map_filter_simps split: sum.splits)
qed

lemma fold_entry_Some_Inr:
  "fold_entry (Some a) (map Some sts) = Inr r \<Longrightarrow>
   \<exists>r'. r = Some r' \<and> map fst r' = map fst a
     \<and> (sts \<noteq> [] \<longrightarrow> complete a \<and> (\<forall>st \<in> set sts. complete st))
     \<and> (\<forall>k. map_of r' k = (if k \<in> set FIELDS \<and> sts \<noteq> []
            then Some (the (map_of a k) + field_total sts k) else map_of a k))"
proof (induction sts arbitrary: a)
  case Nil
  then show ?case by (auto simp: field_total_def)
next
  case (Cons st sts)
  from Cons.prems obtain a1 where a1: "combine (Some a) st = Inr a1"
    "fold_entry (Some a1) (map Some sts) = Inr r" by (auto split: sum.splits)
  note c = combine_Some_Inr [OF a1(1)]
  from Cons.IH [OF a1(2)] obtain r' where r': "r = Some r'" "map fst r' = map fst a1"
    "sts \<noteq> [] \<longrightarrow> (\<forall>st \<in> set sts. complete st)"
    "\<And>k. map_of r' k = (if k \<in> set FIELDS \<and> sts \<noteq> []
            then Some (the (map_of a1 k) + field_total sts k) else map_of a1 k)" by blast
  have "map_of r' k = (if k \<in> set FIELDS
      then Some (the (map_of a k) + field_total (st # sts) k) else map_of a k)" for k
    unfolding r'(4) c(5) by (cases "sts = []") (auto simp: field_total_def)
  with r'(1,2,3) c(1,2,3) show ?case by auto
qed

lemma fold_entry_Some_Inl:
  "fold_entry (Some a) (map Some sts) = Inl err \<Longrightarrow>
   (\<exists>f \<in> set FIELDS. err = KeyError f) \<and> sts \<noteq> [] \<and> (\<not> complete a \<or> (\<exists>st \<in> set sts. \<not> complete st))"
proof (induction sts arbitrary: a)
  case Nil
  then show ?case by simp
next
  case (Cons st sts)
  show ?case
  proof (cases "combine (Some a) st")
    case (Inl e)
    with Cons.prems have "combine (Some a) st = Inl err" by simp
    from combine_Some_Inl [OF this] show ?thesis by auto
  next
    case (Inr a1)
    with Cons.prems have "fold_entry (Some a1) (map Some sts) = Inl err" by simp
    from Cons.IH [OF this] combine_Some_Inr(4) [OF Inr] show ?thesis by auto
  qed
qed

lemma fold_entry_None:
  "fold_entry None (map Some sts) =
     (case sts of [] \<Rightarrow> Inr None | st # rest \<Rightarrow> fold_entry (Some st) (map Some rest))"
  by (cases sts) (simp_all add: combine_def)

lemma value_merge_files_docs:
  "\<forall>f \<in> set fl. fs f \<noteq> None \<Longrightarrow> value_merge_files fs acc fl = value_merge_docs acc (inputs fs fl)"
proof (induction fl arbitrary: acc)
  case Nil
  then show ?case by (simp add: inputs_def)
next
  case (Cons f fl)
  then obtain d where "fs f = Some d" by auto
  with Cons show ?case
    by (auto simp: inputs_def map_filter_simps split: sum.splits)
qed

lemma lookup2_Nil [simp]: "lookup2 [] m e = None"
  by (simp add: lookup2_def)

lemma merge_entry:
  assumes "value_merge_docs [] ds = Inr r" "\<forall>d \<in> set ds. dict_doc d"
  shows "case occurrences ds m e of
      [] \<Rightarrow> lookup2 r m e = None
    | st0 # rest \<Rightarrow> (\<exists>st. lookup2 r m e = Some st \<and> map fst st = map fst st0
        \<and> (rest \<noteq> [] \<longrightarrow> complete st0 \<and> (\<forall>s \<in> set rest. complete s))
        \<and> (\<forall>k. map_of st k = (if k \<in> set FIELDS \<and> rest \<noteq> []
              then Some (the (map_of st0 k) + field_total rest k) else map_of st0 k)))"
proof -
  from docs_entry [OF assms, of m e]
  have f: "fold_entry None (map Some (occurrences ds m e)) = Inr (lookup2 r m e)"
    by (simp add: fold_entry_occurrences)
  show ?thesis
  proof (cases "occurrences ds m e")
    case Nil
    with f show ?thesis by simp
  next
    case (Cons st0 rest)
    with f have "fold_entry (Some st0) (map Some rest) = Inr (lookup2 r m e)"
      by (simp add: combine_def)
    from fold_entry_Some_Inr [OF this] Cons show ?thesis by auto
  qed
qed

lemma merge_error:
  assumes "value_merge_docs [] ds = Inl err" "\<forall>d \<in> set ds. dict_doc d"
  shows "(\<exists>f \<in> set FIELDS. err = KeyError f)
    \<and> (\<exists>m e. 2 \<le> length (occurrences ds m e) \<and> (\<exists>s \<in> set (occurrences ds m e). \<not> complete s))"
proof -
  from docs_error [OF assms] obtain m e where
    f: "fold_entry None (map Some (occurrences ds m e)) = Inl err"
    by (auto simp: fold_entry_occurrences)
  show ?thesis
  proof (cases "occurrences ds m e")
    case Nil
    with f show ?thesis by simp
  next
    case (Cons st0 rest)
    with f have "fold_entry (Some st0) (map Some rest) = Inl err"
      by (simp add: combine_def)
    from fold_entry_Some_Inl [OF this] have "\<exists>f \<in> set FIELDS. err = KeyError f" "rest \<noteq> []"
      "\<exists>s \<in> set (st0 # rest). \<not> complete s" by auto
    moreover from this(2) have "2 \<le> length (st0 # rest)" by (cases rest) auto
    ultimately show ?thesis unfolding Cons [symmetric] by blast
  qed
qed


lemma occurrences_mem:
  "s \<in> set (occurrences ds m e) \<longleftrightarrow> (\<exists>d \<in> set ds. lookup2 d m e = Some s)"
  by (induction ds) (auto simp: occurrences_def map_filter_simps split: option.splits)

section \<open>The claims about the merge\<close>

lemma every_stats_lookup2: "every_stats P d \<Longrightarrow> lookup2 d m e = Some st \<Longrightarrow> P st"
  by (auto simp: every_stats_def lookup2_def split: option.splits dest!: map_of_SomeD)

lemma value_merge_files_Inr_exists:
  "value_merge_files fs acc fl = Inr r \<Longrightarrow> \<forall>f \<in> set fl. fs f \<noteq> None"
  by (induction fl arbitrary: acc) (auto split: option.splits sum.splits)

lemma inputs_dict_doc:
  "readable fs fl \<Longrightarrow> \<forall>d \<in> set (inputs fs fl). dict_doc d"
  by (induction fl) (auto simp: readable_def inputs_def map_filter_simps split: option.splits)

lemma readable_exists: "readable fs fl \<Longrightarrow> \<forall>f \<in> set fl. fs f \<noteq> None"
  by (auto simp: readable_def)

lemma occurrences_first:
  "occurrences ds m e = st0 # rest \<Longrightarrow>
   \<exists>d. find (\<lambda>d. lookup2 d m e \<noteq> None) ds = Some d \<and> lookup2 d m e = Some st0"
  by (induction ds) (auto simp: occurrences_def map_filter_simps split: option.splits)

lemmas eval_merge = merge_loc_histories_def merge_run_def init_state_def FIELDS_def deref_def
  deref_exts_def Let_def metrics_def



text \<open>
  Claim C9. Only the six named fields are summed. Whenever the merge returns, each merged
  MetricSet has exactly the keys of the MetricSet of the first input in which its
  (month, extension) pair occurs, in the same order, and every key other than the six fields
  has the value it has in that first input: additional keys of later inputs are neither added
  nor summed.
\<close>

theorem merge_extra_keys_from_first_input:
  assumes "merge_loc_histories fs fl = Inr r" and "readable fs fl" and "lookup2 r m e = Some st"
  shows "\<exists>d st0. find (\<lambda>d. lookup2 d m e \<noteq> None) (inputs fs fl) = Some d \<and> lookup2 d m e = Some st0
    \<and> map fst st = map fst st0 \<and> (\<forall>k. k \<notin> set FIELDS \<longrightarrow> map_of st k = map_of st0 k)"
proof -
  from assms(1) have v: "value_merge_files fs [] fl = Inr r" by (simp add: merge_loc_histories_value)
  from value_merge_files_Inr_exists [OF v] have ex: "\<forall>f \<in> set fl. fs f \<noteq> None" .
  from v have r: "value_merge_docs [] (inputs fs fl) = Inr r"
    by (simp add: value_merge_files_docs [OF ex])
  note en = merge_entry [OF r inputs_dict_doc [OF assms(2)], of m e]
  show ?thesis
  proof (cases "occurrences (inputs fs fl) m e")
    case Nil
    with en assms(3) show ?thesis by simp
  next
    case (Cons st0 rest)
    from occurrences_first [OF Cons] obtain d where
      d: "find (\<lambda>d. lookup2 d m e \<noteq> None) (inputs fs fl) = Some d" "lookup2 d m e = Some st0" by blast
    from en Cons assms(3) have "map fst st = map fst st0"
      "\<forall>k. k \<notin> set FIELDS \<longrightarrow> map_of st k = map_of st0 k" by auto
    with d show ?thesis by blast
  qed
qed

theorem merge_extra_keys_from_first_input_witness:
  "merge_loc_histories disk [''d.json'', ''a.json'']
     = Inr [(''2024-01'', [(''py'', metrics 11 2 11 0 2 2 @ [(''note'', 7)])])]
   \<and> readable disk [''d.json'', ''a.json'']
   \<and> lookup2 [(''2024-01'', [(''py'', metrics 11 2 11 0 2 2 @ [(''note'', 7)])])] ''2024-01'' ''py''
     = Some (metrics 11 2 11 0 2 2 @ [(''note'', 7)])
   \<and> (\<exists>d st0. find (\<lambda>d. lookup2 d ''2024-01'' ''py'' \<noteq> None) (inputs disk [''d.json'', ''a.json'']) = Some d
     \<and> lookup2 d ''2024-01'' ''py'' = Some st0
     \<and> map fst (metrics 11 2 11 0 2 2 @ [(''note'', 7)]) = map fst st0
     \<and> (\<forall>k. k \<notin> set FIELDS \<longrightarrow> map_of (metrics 11 2 11 0 2 2 @ [(''note'', 7)]) k = map_of st0 k))"
proof -
  have 1: "merge_loc_histories disk [''d.json'', ''a.json'']
      = Inr [(''2024-01'', [(''py'', metrics 11 2 11 0 2 2 @ [(''note'', 7)])])]"
    by (simp add: eval_merge disk_def january_a_def january_note_def)
  have 2: "readable disk [''d.json'', ''a.json'']"
    by (simp add: readable_def disk_def dict_doc_def is_dict_def january_a_def january_note_def)
  have 3: "lookup2 [(''2024-01'', [(''py'', metrics 11 2 11 0 2 2 @ [(''note'', 7)])])] ''2024-01'' ''py''
      = Some (metrics 11 2 11 0 2 2 @ [(''note'', 7)])"
    by (simp add: lookup2_def)
  from 1 2 3 merge_extra_keys_from_first_input [OF 1 2 3] show ?thesis by blast
qed




lemma metric_set_complete: "metric_set st \<Longrightarrow> complete st"
  unfolding metric_set_def complete_def
  by (metis map_of_eq_None_iff set_map)

lemma metric_set_map_of: "metric_set st \<Longrightarrow> k \<notin> set FIELDS \<Longrightarrow> map_of st k = None"
  unfolding metric_set_def by (metis map_of_eq_None_iff set_map)

lemma mset_occurrences:
  "mset ds' = mset ds \<Longrightarrow> mset (occurrences ds' m e) = mset (occurrences ds m e)"
  by (simp add: occurrences_def map_filter_def)

lemma field_total_mset: "mset sts' = mset sts \<Longrightarrow> field_total sts' k = field_total sts k"
proof -
  assume "mset sts' = mset sts"
  then have "mset (map (\<lambda>st. the (map_of st k)) sts') = mset (map (\<lambda>st. the (map_of st k)) sts)"
    by simp
  then have "sum_mset (mset (map (\<lambda>st. the (map_of st k)) sts'))
      = sum_mset (mset (map (\<lambda>st. the (map_of st k)) sts))" by (rule arg_cong)
  then show ?thesis unfolding field_total_def sum_mset_sum_list .
qed

lemma occurrences_every:
  "\<forall>d \<in> set ds. every_stats P d \<Longrightarrow> s \<in> set (occurrences ds m e) \<Longrightarrow> P s"
  by (auto simp: occurrences_mem dest: every_stats_lookup2)

lemma every_stats_mono: "every_stats P d \<Longrightarrow> (\<And>s. P s \<Longrightarrow> Q s) \<Longrightarrow> every_stats Q d"
  by (fastforce simp: every_stats_def)

lemma merge_total:
  assumes "\<forall>d \<in> set ds. dict_doc d" "\<forall>d \<in> set ds. every_stats complete d"
  shows "\<exists>r. value_merge_docs [] ds = Inr r"
proof (cases "value_merge_docs [] ds")
  case (Inl err)
  from merge_error [OF Inl assms(1)] occurrences_every [OF assms(2)] show ?thesis by blast
next
  case (Inr r)
  then show ?thesis by blast
qed

lemma merge_entry_six:
  assumes "value_merge_docs [] ds = Inr r" "\<forall>d \<in> set ds. dict_doc d"
    "\<forall>d \<in> set ds. every_stats metric_set d"
  shows "map_option map_of (lookup2 r m e)
    = (if occurrences ds m e = [] then None else Some (stats_total (occurrences ds m e)))"
    and "lookup2 r m e = Some st \<Longrightarrow> metric_set st"
proof -
  note en = merge_entry [OF assms(1,2), of m e]
  show "map_option map_of (lookup2 r m e)
    = (if occurrences ds m e = [] then None else Some (stats_total (occurrences ds m e)))"
  proof (cases "occurrences ds m e")
    case Nil
    with en show ?thesis by simp
  next
    case (Cons st0 rest)
    with occurrences_every [OF assms(3), of st0 m e] have ms: "metric_set st0" by simp
    from en Cons obtain st where st: "lookup2 r m e = Some st"
      "\<And>k. map_of st k = (if k \<in> set FIELDS \<and> rest \<noteq> []
              then Some (the (map_of st0 k) + field_total rest k) else map_of st0 k)" by auto
    have "map_of st k = stats_total (st0 # rest) k" for k
    proof (cases "k \<in> set FIELDS")
      case True
      with metric_set_complete [OF ms] obtain v where "map_of st0 k = Some v"
        by (auto simp: complete_def)
      with True show ?thesis unfolding st(2) by (auto simp: stats_total_def field_total_def)
    next
      case False
      with metric_set_map_of [OF ms] show ?thesis unfolding st(2) by (simp add: stats_total_def)
    qed
    then have "map_of st = stats_total (st0 # rest)" by (rule ext)
    with st(1) Cons show ?thesis by simp
  qed
  show "metric_set st" if "lookup2 r m e = Some st"
  proof (cases "occurrences ds m e")
    case Nil
    with en that show ?thesis by simp
  next
    case (Cons st0 rest)
    with occurrences_every [OF assms(3), of st0 m e] have ms: "metric_set st0" by simp
    from en Cons that have "map fst st = map fst st0" by auto
    with ms show ?thesis by (simp add: metric_set_def is_dict_def)
  qed
qed

lemma merge_permuted:
  assumes "\<forall>d \<in> set ds. dict_doc d" "\<forall>d \<in> set ds. every_stats metric_set d" "mset ds' = mset ds"
  shows "\<exists>r r'. value_merge_docs [] ds = Inr r \<and> value_merge_docs [] ds' = Inr r'
    \<and> dict_value r' = dict_value r"
proof -
  from assms(3) have s: "set ds' = set ds" by (rule mset_eq_setD)
  have c: "\<forall>d \<in> set ds. every_stats complete d"
    using assms(2) by (blast intro: every_stats_mono metric_set_complete)
  from merge_total [OF assms(1) c] obtain r where r: "value_merge_docs [] ds = Inr r" by blast
  from merge_total [of ds'] assms(1) c s obtain r' where r': "value_merge_docs [] ds' = Inr r'"
    by auto
  have d': "\<forall>d \<in> set ds'. dict_doc d" "\<forall>d \<in> set ds'. every_stats metric_set d"
    using assms(1,2) s by simp_all
  have keys: "map_of r' m = None \<longleftrightarrow> map_of r m = None" for m
    using docs_keys [OF r, of m] docs_keys [OF r', of m] s by simp
  have occ: "occurrences ds' m e = [] \<longleftrightarrow> occurrences ds m e = []" for m e
    using mset_occurrences [OF assms(3), of m e] by (metis mset_zero_iff)
  have tot: "stats_total (occurrences ds' m e) = stats_total (occurrences ds m e)" for m e
    unfolding stats_total_def using field_total_mset [OF mset_occurrences [OF assms(3), of m e]]
    by auto
  have ent: "map_option map_of (lookup2 r' m e) = map_option map_of (lookup2 r m e)" for m e
    unfolding merge_entry_six(1) [OF r assms(1,2)] merge_entry_six(1) [OF r' d'] occ tot ..
  have "dict_value r' m = dict_value r m" for m
  proof (cases "map_of r m")
    case None
    with keys [of m] show ?thesis by (simp add: dict_value_def)
  next
    case (Some es)
    with keys [of m] obtain es' where es': "map_of r' m = Some es'" by auto
    have "map_option map_of (map_of es' e) = map_option map_of (map_of es e)" for e
      using ent [of m e] Some es' by (simp add: lookup2_def)
    with Some es' show ?thesis by (simp add: dict_value_def)
  qed
  then have "dict_value r' = dict_value r" by (rule ext)
  with r r' show ?thesis by blast
qed

lemma value_merge_exts_fresh:
  "distinct (map fst (md @ es)) \<Longrightarrow> value_merge_exts md es = Inr (md @ es)"
proof (induction es arbitrary: md)
  case Nil
  then show ?case by simp
next
  case (Cons p es)
  obtain ext st where p: "p = (ext, st)" by (cases p)
  from Cons.prems p have n: "map_of md ext = None" by (auto simp: map_of_eq_None_iff)
  from Cons.prems p have "distinct (map fst ((md @ [(ext, st)]) @ es))" by auto
  from Cons.IH [OF this] n p show ?case by (simp add: update_absent)
qed

lemma value_merge_months_fresh:
  "distinct (map fst (acc @ d)) \<Longrightarrow> \<forall>(month, es) \<in> set d. is_dict es \<Longrightarrow>
   value_merge_months acc d = Inr (acc @ d)"
proof (induction d arbitrary: acc)
  case Nil
  then show ?case by simp
next
  case (Cons p d)
  obtain month es where p: "p = (month, es)" by (cases p)
  from Cons.prems(1) p have n: "map_of acc month = None" by (auto simp: map_of_eq_None_iff)
  from Cons.prems(2) p have "is_dict es" by simp
  then have e: "value_merge_exts [] es = Inr es"
    using value_merge_exts_fresh [of "[]" es] by (simp add: is_dict_def)
  from Cons.prems(1) p have "distinct (map fst ((acc @ [(month, es)]) @ d))" by auto
  moreover from Cons.prems(2) have "\<forall>(month, es) \<in> set d. is_dict es" by simp
  ultimately have "value_merge_months (acc @ [(month, es)]) d = Inr ((acc @ [(month, es)]) @ d)"
    by (rule Cons.IH)
  with n e p show ?case by (simp add: update_absent)
qed

lemma value_merge_months_self: "dict_doc g \<Longrightarrow> value_merge_months [] g = Inr g"
  using value_merge_months_fresh [of "[]" g] by (simp add: dict_doc_def is_dict_def)

lemma value_merge_docs_append:
  "value_merge_docs acc (xs @ ys)
     = (case value_merge_docs acc xs of Inl e \<Rightarrow> Inl e | Inr a \<Rightarrow> value_merge_docs a ys)"
  by (induction xs arbitrary: acc) (auto split: sum.splits)

lemma inputs_append: "inputs fs (xs @ ys) = inputs fs xs @ inputs fs ys"
  by (simp add: inputs_def map_filter_def)

lemma inputs_update: "out \<notin> set ys \<Longrightarrow> inputs (fs(out \<mapsto> g)) ys = inputs fs ys"
  by (induction ys) (auto simp: inputs_def map_filter_simps split: option.splits)

lemma mset_inputs: "mset fl' = mset fl \<Longrightarrow> mset (inputs fs fl') = mset (inputs fs fl)"
  by (simp add: inputs_def map_filter_def)

lemma every_stats_lookup2_iff:
  "dict_doc g \<Longrightarrow> every_stats P g \<longleftrightarrow> (\<forall>m e st. lookup2 g m e = Some st \<longrightarrow> P st)"
proof
  assume "every_stats P g"
  then show "\<forall>m e st. lookup2 g m e = Some st \<longrightarrow> P st" by (blast dest: every_stats_lookup2)
next
  assume g: "dict_doc g" and *: "\<forall>m e st. lookup2 g m e = Some st \<longrightarrow> P st"
  have "P st" if "(m, es) \<in> set g" "(e, st) \<in> set es" for m es e st
  proof -
    from g that(1) have "map_of g m = Some es" "is_dict es"
      by (auto simp: dict_doc_def is_dict_def)
    with that(2) have "lookup2 g m e = Some st" by (simp add: lookup2_def is_dict_def)
    with * show ?thesis by blast
  qed
  then show "every_stats P g" by (auto simp: every_stats_def)
qed

lemma merged_six_fields:
  assumes "value_merge_docs [] ds = Inr g" "\<forall>d \<in> set ds. dict_doc d"
    "\<forall>d \<in> set ds. every_stats metric_set d"
  shows "dict_doc g \<and> every_stats metric_set g"
proof -
  have "dict_doc []" by (simp add: dict_doc_def is_dict_def)
  from docs_dict_doc [OF assms(1,2) this] have g: "dict_doc g" .
  moreover have "every_stats metric_set g"
    unfolding every_stats_lookup2_iff [OF g] using merge_entry_six(2) [OF assms] by blast
  ultimately show ?thesis ..
qed

lemma readable_append: "readable fs (xs @ ys) \<longleftrightarrow> readable fs xs \<and> readable fs ys"
  by (auto simp: readable_def)

lemma six_fields_append: "six_fields fs (xs @ ys) \<longleftrightarrow> six_fields fs xs \<and> six_fields fs ys"
  by (auto simp: six_fields_def inputs_append)

lemma merge_value_docs:
  "readable fs fl \<Longrightarrow> merge_loc_histories fs fl = value_merge_docs [] (inputs fs fl)"
  by (simp add: merge_loc_histories_value value_merge_files_docs readable_exists)

lemma readable_mset: "mset fl' = mset fl \<Longrightarrow> readable fs fl \<Longrightarrow> readable fs fl'"
  by (auto simp: readable_def dest: mset_eq_setD)

text \<open>
  Claim C1, as stated, fails: when a MetricSet carries a key beyond the six fields, the
  merged entry keeps the extra keys of whichever input comes first, so the result depends on
  the order of the inputs.
\<close>

theorem merge_permutation_counterexample:
  "every_stats complete january_note \<and> every_stats complete january_a
   \<and> merge_loc_histories disk [''d.json'', ''a.json'']
       = Inr [(''2024-01'', [(''py'', metrics 11 2 11 0 2 2 @ [(''note'', 7)])])]
   \<and> merge_loc_histories disk [''a.json'', ''d.json'']
       = Inr [(''2024-01'', [(''py'', metrics 11 2 11 0 2 2)])]
   \<and> dict_value [(''2024-01'', [(''py'', metrics 11 2 11 0 2 2 @ [(''note'', 7)])])]
       \<noteq> dict_value [(''2024-01'', [(''py'', metrics 11 2 11 0 2 2)])]"
proof -
  have "dict_value [(''2024-01'', [(''py'', metrics 11 2 11 0 2 2 @ [(''note'', 7)])])] ''2024-01''
      \<noteq> dict_value [(''2024-01'', [(''py'', metrics 11 2 11 0 2 2)])] ''2024-01''"
  proof
    assume "dict_value [(''2024-01'', [(''py'', metrics 11 2 11 0 2 2 @ [(''note'', 7)])])] ''2024-01''
      = dict_value [(''2024-01'', [(''py'', metrics 11 2 11 0 2 2)])] ''2024-01''"
    then have "(\<lambda>ext. map_option map_of (map_of [(''py'', metrics 11 2 11 0 2 2 @ [(''note'', 7)])] ext))
      = (\<lambda>ext. map_option map_of (map_of [(''py'', metrics 11 2 11 0 2 2)] ext))"
      by (simp add: dict_value_def)
    then have "map_option map_of (map_of [(''py'', metrics 11 2 11 0 2 2 @ [(''note'', 7)])] ''py'')
      = map_option map_of (map_of [(''py'', metrics 11 2 11 0 2 2)] ''py'')"
      by (rule fun_cong)
    then have "map_of (metrics 11 2 11 0 2 2 @ [(''note'', 7)]) ''note''
      = map_of (metrics 11 2 11 0 2 2) ''note''" by simp
    then show False by (simp add: metrics_def)
  qed
  then have "dict_value [(''2024-01'', [(''py'', metrics 11 2 11 0 2 2 @ [(''note'', 7)])])]
      \<noteq> dict_value [(''2024-01'', [(''py'', metrics 11 2 11 0 2 2)])]" by metis
  moreover have "every_stats complete january_note" "every_stats complete january_a"
    by (simp_all add: every_stats_def complete_def january_note_def january_a_def metrics_def FIELDS_def)
  moreover have "merge_loc_histories disk [''d.json'', ''a.json'']
       = Inr [(''2024-01'', [(''py'', metrics 11 2 11 0 2 2 @ [(''note'', 7)])])]"
    by (simp add: eval_merge disk_def january_a_def january_note_def)
  moreover have "merge_loc_histories disk [''a.json'', ''d.json'']
       = Inr [(''2024-01'', [(''py'', metrics 11 2 11 0 2 2)])]"
    by (simp add: eval_merge disk_def january_a_def january_note_def)
  ultimately show ?thesis by blast
qed

text \<open>
  Claim C1, amended. For inputs that exist and whose MetricSets have exactly the six fields:
  the merge returns; merging any permutation of the inputs returns an equal history (equal as
  nested dicts, the insertion order of keys aside); and writing the merge of the inputs \<open>xs\<close>
  to a file \<open>out\<close> and then merging that file with the inputs \<open>ys\<close>, in any order,
  again returns a history equal to the merge of \<open>xs @ ys\<close>.
\<close>

theorem merge_order_and_grouping:
  assumes "readable fs (xs @ ys)" and "six_fields fs (xs @ ys)" and "xs \<noteq> []"
    and "out \<notin> set ys" and "mset fl' = mset (xs @ ys)" and "mset fl2 = mset (out # ys)"
  shows "\<exists>r r' g r2. merge_loc_histories fs (xs @ ys) = Inr r
    \<and> merge_loc_histories fs fl' = Inr r' \<and> dict_value r' = dict_value r
    \<and> main fs xs out = (fs(out \<mapsto> g), None)
    \<and> merge_loc_histories (fs(out \<mapsto> g)) (out # ys) = Inr r
    \<and> merge_loc_histories (fs(out \<mapsto> g)) fl2 = Inr r2 \<and> dict_value r2 = dict_value r"
proof -
  let ?dx = "inputs fs xs" and ?dy = "inputs fs ys"
  from assms(1) have rx: "readable fs xs" and ry: "readable fs ys" by (simp_all add: readable_append)
  note dd = inputs_dict_doc [OF assms(1)]
  have six: "\<forall>d \<in> set (inputs fs (xs @ ys)). every_stats metric_set d"
    using assms(2) by (simp add: six_fields_def)
  from merge_permuted [OF dd six mset_inputs [OF assms(5)]]
  obtain r r' where r: "value_merge_docs [] (inputs fs (xs @ ys)) = Inr r"
    and r': "value_merge_docs [] (inputs fs fl') = Inr r'" and eq: "dict_value r' = dict_value r"
    by blast
  have 1: "merge_loc_histories fs (xs @ ys) = Inr r"
    using r by (simp add: merge_value_docs [OF assms(1)])
  have 2: "merge_loc_histories fs fl' = Inr r'"
    using r' by (simp add: merge_value_docs [OF readable_mset [OF assms(5,1)]])
  from r obtain g where g: "value_merge_docs [] ?dx = Inr g" and gr: "value_merge_docs g ?dy = Inr r"
    by (auto simp: inputs_append value_merge_docs_append split: sum.splits)
  from g have "merge_loc_histories fs xs = Inr g" by (simp add: merge_value_docs [OF rx])
  with assms(3) have 3: "main fs xs out = (fs(out \<mapsto> g), None)" by (simp add: main_def)
  have ddx: "\<forall>d \<in> set ?dx. dict_doc d" "\<forall>d \<in> set ?dx. every_stats metric_set d"
    using dd six by (simp_all add: inputs_append)
  from merged_six_fields [OF g ddx] have gg: "dict_doc g" "every_stats metric_set g" by simp_all
  let ?fs = "fs(out \<mapsto> g)"
  have inp: "inputs ?fs (out # ys) = g # ?dy"
    using inputs_update [OF assms(4), of fs g] by (simp add: inputs_def map_filter_simps)
  have rd: "readable ?fs (out # ys)"
    using ry gg(1) assms(4) by (auto simp: readable_def)
  have v: "value_merge_docs [] (g # ?dy) = Inr r"
    using gr by (simp add: value_merge_months_self [OF gg(1)])
  have 4: "merge_loc_histories ?fs (out # ys) = Inr r"
    using v by (simp add: merge_value_docs [OF rd] inp)
  have dd2: "\<forall>d \<in> set (g # ?dy). dict_doc d" "\<forall>d \<in> set (g # ?dy). every_stats metric_set d"
    using dd six gg by (simp_all add: inputs_append)
  have "mset (inputs ?fs fl2) = mset (g # ?dy)"
    using mset_inputs [OF assms(6), of ?fs] by (simp only: inp)
  from merge_permuted [OF dd2 this] v obtain r2 where
    r2: "value_merge_docs [] (inputs ?fs fl2) = Inr r2" "dict_value r2 = dict_value r" by auto
  have 5: "merge_loc_histories ?fs fl2 = Inr r2"
    using r2(1) by (simp add: merge_value_docs [OF readable_mset [OF assms(6) rd]])
  from 1 2 eq 3 4 5 r2(2) show ?thesis by blast
qed

theorem merge_order_and_grouping_witness:
  "readable disk ([''a.json''] @ [''b.json'']) \<and> six_fields disk ([''a.json''] @ [''b.json''])
   \<and> mset [''b.json'', ''a.json''] = mset ([''a.json''] @ [''b.json''])
   \<and> mset [''b.json'', ''m.json''] = mset (''m.json'' # [''b.json''])
   \<and> (\<exists>r r' g r2. merge_loc_histories disk ([''a.json''] @ [''b.json'']) = Inr r
    \<and> merge_loc_histories disk [''b.json'', ''a.json''] = Inr r' \<and> dict_value r' = dict_value r
    \<and> main disk [''a.json''] ''m.json'' = (disk(''m.json'' \<mapsto> g), None)
    \<and> merge_loc_histories (disk(''m.json'' \<mapsto> g)) (''m.json'' # [''b.json'']) = Inr r
    \<and> merge_loc_histories (disk(''m.json'' \<mapsto> g)) [''b.json'', ''m.json''] = Inr r2
    \<and> dict_value r2 = dict_value r)"
proof -
  have 1: "readable disk ([''a.json''] @ [''b.json''])"
    by (simp add: readable_def disk_def dict_doc_def is_dict_def january_a_def january_b_def)
  have 2: "six_fields disk ([''a.json''] @ [''b.json''])"
    by (simp add: six_fields_def inputs_def map_filter_simps disk_def every_stats_def
        metric_set_def is_dict_def january_a_def january_b_def metrics_def FIELDS_def)
  have 3: "[''a.json''] \<noteq> []" by simp
  have 4: "''m.json'' \<notin> set [''b.json'']" by simp
  have 5: "mset [''b.json'', ''a.json''] = mset ([''a.json''] @ [''b.json''])" by simp
  have 6: "mset [''b.json'', ''m.json''] = mset (''m.json'' # [''b.json''])" by simp
  from 1 2 5 6 merge_order_and_grouping [OF 1 2 3 4 5 6] show ?thesis by blast
qed






section \<open>The identity matcher: parsing and matching of its patterns\<close>

lemmas char_class_defs = is_alnum_def is_digit_def is_upper_def is_lower_def is_word_char_def
  backslash_def other_special_def escaped_chars_def

lemma escaped_not_alnum: "c \<in> set escaped_chars \<Longrightarrow> \<not> is_alnum c"
  by (auto simp: char_class_defs)

lemma unescaped_plain:
  "c \<notin> set escaped_chars \<Longrightarrow>
   c \<noteq> backslash \<and> c \<noteq> CHR ''.'' \<and> c \<noteq> CHR ''*'' \<and> c \<notin> set other_special"
  by (auto simp: char_class_defs)

lemma login_char_plain:
  "is_alnum c \<or> c = CHR ''-'' \<or> c = CHR ''_'' \<Longrightarrow>
   c \<noteq> backslash \<and> c \<noteq> CHR ''.'' \<and> c \<noteq> CHR ''*'' \<and> c \<notin> set other_special"
  by (auto simp: char_class_defs)

lemma followed_by_simps [simp]:
  "followed_by x (Inr xs) = Inr (x # xs)"
  "followed_by x (Inl e) = Inl e"
  by (simp_all add: followed_by_def)

lemma re_tokens_escape:
  "re_tokens (re_escape s @ t)
     = (case re_tokens t of Inl e \<Rightarrow> Inl e | Inr ts \<Rightarrow> Inr (map (\<lambda>c. TAtom (Lit c)) s @ ts))"
proof (induction s)
  case Nil
  then show ?case by (simp add: re_escape_def split: sum.splits)
next
  case (Cons c s)
  have e: "re_escape (c # s) = (if c \<in> set escaped_chars then [backslash, c] else [c]) @ re_escape s"
    by (simp add: re_escape_def)
  show ?case
  proof (cases "c \<in> set escaped_chars")
    case True
    from escaped_not_alnum [OF True] have "\<not> is_alnum c" "c \<noteq> CHR ''b''"
      by (auto simp: char_class_defs)
    with True Cons show ?thesis unfolding e by (cases "re_tokens t") simp_all
  next
    case False
    from unescaped_plain [OF False] Cons False show ?thesis
      unfolding e by (cases "re_tokens t") simp_all
  qed
qed

lemma re_tokens_login:
  "\<forall>c \<in> set s. is_alnum c \<or> c = CHR ''-'' \<or> c = CHR ''_'' \<Longrightarrow>
   re_tokens (s @ t)
     = (case re_tokens t of Inl e \<Rightarrow> Inl e | Inr ts \<Rightarrow> Inr (map (\<lambda>c. TAtom (Lit c)) s @ ts))"
proof (induction s)
  case Nil
  then show ?case by (simp split: sum.splits)
next
  case (Cons c s)
  then have "is_alnum c \<or> c = CHR ''-'' \<or> c = CHR ''_''" by simp
  from login_char_plain [OF this] Cons show ?case
    by (cases "re_tokens t") simp_all
qed

lemma re_items_literals:
  "ts = [] \<or> hd ts \<noteq> TStar \<Longrightarrow>
   re_items (map (\<lambda>c. TAtom (Lit c)) s @ ts)
     = (case re_items ts of Inl e \<Rightarrow> Inl e | Inr r \<Rightarrow> Inr (map (\<lambda>c. One (Lit c)) s @ r))"
proof (induction s)
  case Nil
  then show ?case by (simp split: sum.splits)
next
  case (Cons c s)
  have "re_items (TAtom (Lit c) # map (\<lambda>c. TAtom (Lit c)) s @ ts)
      = followed_by (One (Lit c)) (re_items (map (\<lambda>c. TAtom (Lit c)) s @ ts))"
  proof (cases s)
    case Nil
    with Cons.prems show ?thesis by (cases ts; cases "hd ts") auto
  next
    case (Cons d s')
    then show ?thesis by simp
  qed
  with Cons show ?case by (cases "re_items ts") simp_all
qed

lemma re_parse_word_pattern:
  "re_parse (word_pattern s) = Inr (WordBoundary # map (\<lambda>c. One (Lit c)) s @ [WordBoundary])"
proof -
  have "re_tokens (word_pattern s) = Inr (TBoundary # map (\<lambda>c. TAtom (Lit c)) s @ [TBoundary])"
    unfolding word_pattern_def
    by (simp add: re_tokens_escape)
  moreover have "re_items (TBoundary # map (\<lambda>c. TAtom (Lit c)) s @ [TBoundary])
      = Inr (WordBoundary # map (\<lambda>c. One (Lit c)) s @ [WordBoundary])"
    by (simp add: re_items_literals)
  ultimately show ?thesis by (simp add: re_parse_def)
qed

lemma re_parse_escape: "re_parse (re_escape s) = Inr (map (\<lambda>c. One (Lit c)) s)"
  using re_tokens_escape [of s "[]"] re_items_literals [of "[]" s]
  by (simp add: re_parse_def)

lemma re_parse_local_part:
  "re_parse (re_escape s @ ''@.*'') = Inr (map (\<lambda>c. One (Lit c)) s @ [One (Lit CHR ''@''), Star Dot])"
proof -
  have t: "re_tokens ''@.*'' = Inr [TAtom (Lit CHR ''@''), TAtom Dot, TStar]"
    by (simp add: char_class_defs)
  show ?thesis
    by (simp add: re_parse_def re_tokens_escape t re_items_literals del: re_tokens.simps)
qed

lemma re_parse_noreply:
  assumes "\<forall>c \<in> set s. is_alnum c \<or> c = CHR ''-'' \<or> c = CHR ''_''"
  shows "\<exists>r. re_parse (noreply_pattern s) = Inr r"
proof -
  obtain ts r where t: "re_tokens ''@users.noreply.github.com'' = Inr ts" "hd ts \<noteq> TStar"
    "re_items ts = Inr r"
    by (simp add: char_class_defs)
  show ?thesis
    using t by (auto simp: re_parse_def noreply_pattern_def re_tokens_login [OF assms] re_items_literals)
qed

lemma match_here_literals:
  "match_here (map (\<lambda>c. One (Lit c)) s @ r) prev (s @ t)
     = match_here r (if s = [] then prev else Some (last s)) t"
  by (induction s arbitrary: prev) auto

lemma search_from_here: "match_here r prev s \<Longrightarrow> search_from r prev s"
  by (cases s) auto

lemma word_pattern_self_search:
  assumes "s \<noteq> []" "is_word_char (hd s)" "is_word_char (last s)" "t = [] \<or> \<not> is_word_char (hd t)"
  shows "re_search (WordBoundary # map (\<lambda>c. One (Lit c)) s @ [WordBoundary]) (s @ t)"
proof -
  from assms(1,2) have b0: "at_boundary None (s @ t)"
    by (cases s) (auto simp: at_boundary_def)
  from assms(3,4) have b1: "at_boundary (Some (last s)) t"
    by (cases t) (auto simp: at_boundary_def)
  have "match_here (map (\<lambda>c. One (Lit c)) s @ [WordBoundary]) None (s @ t)"
    unfolding match_here_literals using assms(1) b1 by simp
  with b0 have "match_here (WordBoundary # map (\<lambda>c. One (Lit c)) s @ [WordBoundary]) None (s @ t)"
    by simp
  then show ?thesis unfolding re_search_def by (rule search_from_here)
qed

lemma re_compile_word_pattern:
  "re_compile lib (word_pattern s)
     = Inr \<lparr>pattern = word_pattern s,
            search = re_search (WordBoundary # map (\<lambda>c. One (Lit c)) s @ [WordBoundary])\<rparr>"
  by (simp add: re_compile_def re_parse_word_pattern)

lemma append_compiled_word:
  "append_compiled lib (word_pattern s) ps
     = Inr (ps @ [\<lparr>pattern = word_pattern s,
            search = re_search (WordBoundary # map (\<lambda>c. One (Lit c)) s @ [WordBoundary])\<rparr>])"
  by (simp add: append_compiled_def re_compile_word_pattern)

lemma append_name_parts_extends:
  "\<exists>more. append_name_parts lib parts ps = Inr (ps @ more)"
proof (induction parts arbitrary: ps)
  case Nil
  then show ?case by simp
next
  case (Cons part parts)
  show ?case
  proof (cases "length part > 2")
    case True
    from Cons [of "ps @ [\<lparr>pattern = word_pattern part,
        search = re_search (WordBoundary # map (\<lambda>c. One (Lit c)) part @ [WordBoundary])\<rparr>]"]
    show ?thesis using True by (auto simp: append_compiled_word)
  next
    case False
    with Cons [of ps] show ?thesis by simp
  qed
qed

lemma name_patterns_extends: "\<exists>more. name_patterns lib n ps = Inr (ps @ more)"
proof (cases "n = []")
  case True
  then show ?thesis by (simp add: name_patterns_def)
next
  case False
  from append_name_parts_extends [of lib "py_split n" "ps @ [\<lparr>pattern = word_pattern n,
        search = re_search (WordBoundary # map (\<lambda>c. One (Lit c)) n @ [WordBoundary])\<rparr>]"]
  show ?thesis using False by (auto simp: name_patterns_def append_compiled_word)
qed

lemma email_patterns_returns: "\<exists>ps. email_patterns lib e [] = Inr ps"
  by (simp add: email_patterns_def append_compiled_def re_compile_def re_parse_escape
      re_parse_local_part)

lemma build_patterns_shape:
  "(\<exists>ps1 p2 more. build_patterns lib u
        = Inr (ps1 @ [p2, \<lparr>pattern = word_pattern (login u),
            search = re_search (WordBoundary # map (\<lambda>c. One (Lit c)) (login u) @ [WordBoundary])\<rparr>] @ more)
      \<and> re_compile lib (noreply_pattern (login u)) = Inr p2)
   \<or> (build_patterns lib u = Inl (ReError (noreply_pattern (login u)))
      \<and> re_compile lib (noreply_pattern (login u)) = Inl (ReError (noreply_pattern (login u))))"
proof -
  obtain ps1 where e: "email_patterns lib (case email u of None \<Rightarrow> [] | Some e \<Rightarrow> e) [] = Inr ps1"
    using email_patterns_returns by blast
  show ?thesis
  proof (cases "re_compile lib (noreply_pattern (login u))")
    case (Inl err)
    then have "err = ReError (noreply_pattern (login u))"
      by (auto simp: re_compile_def split: sum.splits parse_failure.splits option.splits)
    with Inl e show ?thesis by (simp add: build_patterns_def append_compiled_def Let_def)
  next
    case (Inr p2)
    let ?p3 = "\<lparr>pattern = word_pattern (login u),
        search = re_search (WordBoundary # map (\<lambda>c. One (Lit c)) (login u) @ [WordBoundary])\<rparr>"
    obtain more where "name_patterns lib (case name u of None \<Rightarrow> [] | Some n \<Rightarrow> n) (ps1 @ [p2, ?p3])
        = Inr ((ps1 @ [p2, ?p3]) @ more)"
      using name_patterns_extends by blast
    with Inr e have "build_patterns lib u = Inr (ps1 @ [p2, ?p3] @ more)"
      by (simp add: build_patterns_def append_compiled_def re_compile_word_pattern Let_def)
    with Inr show ?thesis by blast
  qed
qed

text \<open>
  Claim C7, as stated, fails: the login \<^verbatim>\<open>-\<close> is not a word, so \<^verbatim>\<open>\b\-\b\<close> finds no word
  boundary around it in the author text \<^verbatim>\<open>- <>\<close>, and the no-reply pattern does not occur
  in that text either.
\<close>

theorem login_self_match_counterexample:
  "login hyphen_user \<noteq> [] \<and> \<not> isl (build_patterns no_library hyphen_user)
   \<and> \<not> is_users_commit (projr (build_patterns no_library hyphen_user)) (login hyphen_user) []"
  by (simp add: build_patterns_def hyphen_user_def email_patterns_def name_patterns_def
      append_compiled_def re_compile_def re_parse_def noreply_pattern_def word_pattern_def
      re_escape_def is_users_commit_def re_search_def at_boundary_def to_lower_def
      no_library_def char_class_defs)

text \<open>
  Claim C7, amended. For every profile whose login is not empty and begins and ends with a
  word character (a letter, a digit or the underscore), if the pattern set is built (the
  patterns compile), it matches the author text formed from the profile's own login as
  display name and any e-mail string: the login pattern \<^verbatim>\<open>\blogin\b\<close> matches at the start
  of the text.
\<close>

theorem login_self_match:
  assumes "build_patterns lib u = Inr ps" and "login u \<noteq> []"
    and "is_word_char (hd (login u))" and "is_word_char (last (login u))"
  shows "is_users_commit ps (login u) e"
proof -
  let ?r = "WordBoundary # map (\<lambda>c. One (Lit c)) (login u) @ [WordBoundary]"
  from build_patterns_shape [of lib u] assms(1)
  have "\<lparr>pattern = word_pattern (login u), search = re_search ?r\<rparr> \<in> set ps" by auto
  moreover have "re_search ?r (login u @ '' <'' @ e @ ''>'')"
    using assms(2,3,4) by (intro word_pattern_self_search) (simp_all add: char_class_defs)
  ultimately show ?thesis
    unfolding is_users_commit_def list_ex_iff by force
qed

theorem login_self_match_witness:
  "login octocat \<noteq> [] \<and> is_word_char (hd (login octocat)) \<and> is_word_char (last (login octocat))
   \<and> (\<exists>ps. build_patterns no_library octocat = Inr ps
        \<and> is_users_commit ps (login octocat) ''someone@example.org'')"
proof -
  have 1: "login octocat \<noteq> []" "is_word_char (hd (login octocat))"
    "is_word_char (last (login octocat))"
    by (simp_all add: octocat_def char_class_defs)
  have "\<exists>r. re_parse (noreply_pattern (login octocat)) = Inr r"
    by (rule re_parse_noreply) (simp add: octocat_def char_class_defs)
  then have "\<exists>p. re_compile no_library (noreply_pattern (login octocat)) = Inr p"
    by (auto simp: re_compile_def)
  with build_patterns_shape [of no_library octocat]
  obtain ps where ps: "build_patterns no_library octocat = Inr ps" by auto
  from login_self_match [OF ps 1] 1 ps show ?thesis by blast
qed


text \<open>
  The login enters the no-reply pattern without \<^verbatim>\<open>re.escape\<close>. A text that is not a login
  of GitHub, such as \<^verbatim>\<open>*\<close>, can make it a text that \<^verbatim>\<open>re.compile\<close> rejects.
\<close>

lemma build_patterns_not_a_login:
  "\<not> github_login (login star_user)
   \<and> build_patterns lib star_user = Inl (ReError ''*@users.noreply.github.com'')"
  by (simp add: build_patterns_def star_user_def email_patterns_def append_compiled_def
      re_compile_def re_parse_def noreply_pattern_def Let_def github_login_def char_class_defs)



section \<open>The claims about the pipeline\<close>







































text \<open>
  Claim C5. If every clone attempt fails, \<^verbatim>\<open>process_all_repos\<close> logs the error
  "No repositories were successfully cloned" (or, when no repository was listed at all,
  "No repositories found to analyze."), submits no analyzer job and returns the empty history.
\<close>

theorem no_clone_no_dispatch:
  assumes "all_clones_fail w"
  shows "submitted (process_all_repos w ps) = [] \<and> futures (process_all_repos w ps) = []
    \<and> returned (process_all_repos w ps) = Inr []
    \<and> logged (process_all_repos w ps)
        = (if contributed_repos w = [] then [LogError NoRepositoriesFound]
           else [LogInfo CloningRepositories, LogError NoRepositoriesCloned])"
proof -
  from assms have "filter snd (map (clone_repo w) (contributed_repos w)) = []"
    by (auto simp: all_clones_fail_def clone_repo_def filter_empty_conv)
  then show ?thesis by (simp add: process_all_repos_def Let_def)
qed

theorem no_clone_no_dispatch_witness:
  "all_clones_fail offline
   \<and> submitted (process_all_repos offline []) = [] \<and> futures (process_all_repos offline []) = []
   \<and> returned (process_all_repos offline []) = Inr []
   \<and> logged (process_all_repos offline []) = [LogInfo CloningRepositories, LogError NoRepositoriesCloned]"
proof -
  have 1: "all_clones_fail offline" by (simp add: all_clones_fail_def offline_def cloud_def)
  have 2: "contributed_repos offline \<noteq> []" by (simp add: offline_def cloud_def)
  from no_clone_no_dispatch [OF 1, of "[]"] 1 2 show ?thesis by simp
qed




end
